theory Spec2Isabelle
  imports Complex_Main "HOL-Library.Word" "HOL-Library.Log_Nat"
begin

unbundle bit_operations_syntax

section \<open>Numbers of \<open>src/lib/2048.ts\<close>\<close>

text \<open>
  A \<open>number\<close> of the source is a double. The engine starts from boards of integers and
  only adds, so the values a cell can take are the integers and the two infinities (the
  sum of two equal large tiles overflows); a score can in addition be \<open>NaN\<close> (the sum of
  the two infinities). \<open>Fin a\<close> is the integer \<open>a\<close>; \<open>0\<close> and \<open>-0\<close> are both \<open>Fin 0\<close>, as no
  operation of the engine tells them apart. Fractions and \<open>NaN\<close> are not cell values:
  no operation of the engine produces them in a cell. A cell of the source is a double,
  so an integer that no double represents has no counterpart there; the predicate
  \<open>doubles_exactly\<close> below singles out the integers that are doubles.
\<close>

datatype num = Fin int | PInf | NInf

datatype number = Num num | NaN

type_synonym Board = "num list list"

datatype Direction = Left | Right | Up | Down

record move_result =
  board :: Board
  gained :: number
  moved :: bool

datatype error = TypeError

text \<open>
  An \<open>RNG\<close> is a closure \<open>() => number\<close> with hidden state. It is modelled as a function
  from the hidden state to the number returned and the next state; every call of the
  source threads the state. The number returned is a finite double, given by its value.
\<close>

type_synonym 's RNG = "'s \<Rightarrow> real \<times> 's"

section \<open>Seeded random source\<close>

text \<open>
  The values that occur in \<open>createSeededRng\<close> for
  an integer seed are integers, so they are modelled as \<open>int\<close>, with the conversions of
  the bitwise operators written out: \<open>^\<close> and \<open>|\<close> convert their operands with
  \<open>ToInt32\<close>, \<open>>>>\<close> converts its left operand with \<open>ToUint32\<close>, and \<open>Math.imul\<close> returns
  the low 32 bits of the product as a signed value. \<open>+\<close> is the addition of doubles: it
  is exact up to \<open>2^53\<close> and rounds to the nearest double (ties to even) above;
  \<open>double_round\<close> is that rounding for integers (the values of the generator stay far
  below the largest double).
\<close>

definition ToUint32 :: "int \<Rightarrow> int" where
  "ToUint32 x = x mod 2 ^ 32"

definition ToInt32 :: "int \<Rightarrow> int" where
  "ToInt32 x = (let u = x mod 2 ^ 32 in if u \<ge> 2 ^ 31 then u - 2 ^ 32 else u)"

definition imul :: "int \<Rightarrow> int \<Rightarrow> int" where
  "imul a b = ToInt32 (ToUint32 a * ToUint32 b)"

definition js_xor :: "int \<Rightarrow> int \<Rightarrow> int" where
  "js_xor a b = ToInt32 a XOR ToInt32 b"

definition js_or :: "int \<Rightarrow> int \<Rightarrow> int" where
  "js_or a b = ToInt32 a OR ToInt32 b"

definition js_ushr :: "int \<Rightarrow> nat \<Rightarrow> int" where
  "js_ushr a k = ToUint32 a div 2 ^ (k mod 32)"

definition double_round :: "int \<Rightarrow> int" where
  "double_round x =
     (let a = \<bar>x\<bar> in
      if a < 2 ^ 53 then x
      else
        (let e = nat (bitlen a) - 53;
             q = a div 2 ^ e;
             r = a mod 2 ^ e;
             h = 2 ^ (e - 1);
             m = (if r > h \<or> (r = h \<and> odd q) then q + 1 else q)
         in sgn x * m * 2 ^ e))"

definition js_add :: "int \<Rightarrow> int \<Rightarrow> int" where
  "js_add a b = double_round (a + b)"

text \<open>
  \<open>createSeededRng seed\<close> is the initial value of the captured variable \<open>t\<close>;
  \<open>seeded_rng\<close> is the closure it returns, as a function of that variable.
\<close>

definition createSeededRng :: "int \<Rightarrow> int" where
  "createSeededRng seed = js_ushr seed 0"

definition seeded_rng :: "int RNG" where
  "seeded_rng t0 =
     (let t = js_add t0 0x6d2b79f5;
          r1 = imul (js_xor t (js_ushr t 15)) (js_or 1 t);
          r2 = js_xor (js_add r1 (imul (js_xor r1 (js_ushr r1 7)) (js_or 61 r1))) r1
      in (real_of_int (js_ushr (js_xor r2 (js_ushr r2 14)) 0) / 4294967296, t))"

text \<open>The value returned by call number \<open>k\<close> (from 0) of \<open>createSeededRng(seed)\<close>.\<close>

fun rng_calls :: "nat \<Rightarrow> int \<Rightarrow> int" where
  "rng_calls 0 t = t"
| "rng_calls (Suc k) t = rng_calls k (snd (seeded_rng t))"

definition nth_output :: "int \<Rightarrow> nat \<Rightarrow> real" where
  "nth_output seed k = fst (seeded_rng (rng_calls k (createSeededRng seed)))"

subsection \<open>The four steps as the specification words them\<close>

definition spec_step1 :: "32 word \<Rightarrow> 32 word" where
  "spec_step1 t = t + 0x6D2B79F5"

definition spec_step2 :: "32 word \<Rightarrow> 32 word" where
  "spec_step2 t = (t XOR drop_bit 15 t) * (t OR 1)"

definition spec_step3 :: "32 word \<Rightarrow> 32 word" where
  "spec_step3 r = (r XOR ((r XOR drop_bit 7 r) * (r OR 61))) XOR r"

definition spec_step4 :: "32 word \<Rightarrow> real" where
  "spec_step4 r = real (unat (r XOR drop_bit 14 r)) / 2 ^ 32"

definition spec_output :: "int \<Rightarrow> nat \<Rightarrow> real" where
  "spec_output seed k =
     spec_step4 (spec_step3 (spec_step2 ((spec_step1 ^^ Suc k) (word_of_int seed))))"

text \<open>Step 3 with the addition that the source has in place of the first exclusive or.\<close>

definition step3_add :: "32 word \<Rightarrow> 32 word" where
  "step3_add r = (r + (r XOR drop_bit 7 r) * (r OR 61)) XOR r"

definition formula_output :: "int \<Rightarrow> nat \<Rightarrow> real" where
  "formula_output seed k =
     spec_step4 (step3_add (spec_step2 ((spec_step1 ^^ Suc k) (word_of_int seed))))"

section \<open>Arithmetic and comparisons on cells\<close>

text \<open>
  \<open>a + b\<close> on doubles: the exact sum rounded to the nearest double, an infinity when the
  rounded sum reaches \<open>2^1024\<close>; sums with an infinity or \<open>NaN\<close> as IEEE 754 has them.
\<close>

definition overflow :: "int \<Rightarrow> num" where
  "overflow v = (if v \<ge> 2 ^ 1024 then PInf else if v \<le> - (2 ^ 1024) then NInf else Fin v)"

fun js_plus :: "number \<Rightarrow> number \<Rightarrow> number" where
  "js_plus (Num (Fin a)) (Num (Fin b)) = Num (overflow (double_round (a + b)))"
| "js_plus (Num PInf) (Num NInf) = NaN"
| "js_plus (Num NInf) (Num PInf) = NaN"
| "js_plus (Num PInf) (Num y) = Num PInf"
| "js_plus (Num x) (Num PInf) = Num PInf"
| "js_plus (Num NInf) (Num y) = Num NInf"
| "js_plus (Num x) (Num NInf) = Num NInf"
| "js_plus NaN y = NaN"
| "js_plus x NaN = NaN"

text \<open>\<open>v >= k\<close> for a cell \<open>v\<close> and an integer \<open>k\<close>.\<close>

fun js_ge :: "num \<Rightarrow> int \<Rightarrow> bool" where
  "js_ge (Fin a) k = (a \<ge> k)"
| "js_ge PInf k = True"
| "js_ge NInf k = False"

section \<open>Boards\<close>

text \<open>
  A read \<open>board[r][c]\<close> past the end of a row yields \<open>undefined\<close> in the source; the
  function \<open>cell\<close> makes that read explicit as \<open>None\<close>.
\<close>

definition cell :: "Board \<Rightarrow> nat \<Rightarrow> nat \<Rightarrow> num option" where
  "cell b r c = (if r < length b \<and> c < length (b ! r) then Some (b ! r ! c) else None)"

definition createEmptyBoard :: "nat \<Rightarrow> Board" where
  "createEmptyBoard sz = map (\<lambda>_. map (\<lambda>_. Fin 0) [0..<sz]) [0..<sz]"

definition cloneBoard :: "Board \<Rightarrow> Board" where
  "cloneBoard b = map (\<lambda>row. row) b"

section \<open>Random tile spawn\<close>

text \<open>
  \<open>rng() * n\<close> is a product of doubles. Every finite double is an integer number of
  units \<open>2^-1074\<close>, so for the double \<open>x\<close> the exact product is \<open>\<lfloor>x * 2^1074\<rfloor> * n\<close> units,
  and the product of the source is that integer rounded to the nearest double.
  \<open>0.9\<close> is the double \<open>8106479329266893 / 2^53\<close>.
\<close>

definition double_times :: "real \<Rightarrow> nat \<Rightarrow> real" where
  "double_times x n = real_of_int (double_round (\<lfloor>x * 2 ^ 1074\<rfloor> * int n)) / 2 ^ 1074"

definition rand :: "nat \<Rightarrow> real \<Rightarrow> int" where
  "rand n x = \<lfloor>double_times x n\<rfloor>"

definition getEmptyCells :: "Board \<Rightarrow> (nat \<times> nat) list" where
  "getEmptyCells b =
     concat (map (\<lambda>r. map (\<lambda>c. (r, c)) (filter (\<lambda>c. b ! r ! c = Fin 0) [0..<length (b ! r)]))
                 [0..<length b])"

text \<open>
  \<open>const { r, c } = empty[i]\<close> throws a \<open>TypeError\<close> when \<open>i\<close> is not an index of
  \<open>empty\<close> (the read is \<open>undefined\<close>); this happens before the second call of \<open>rng\<close>.
\<close>

definition spawnRandomTile :: "Board \<Rightarrow> 's RNG \<Rightarrow> 's \<Rightarrow> error + (Board \<times> 's)" where
  "spawnRandomTile b rng s =
     (let empty = getEmptyCells b in
      if length empty = 0 then Inr (b, s)
      else
        (case rng s of (x, s1) \<Rightarrow>
           let i = rand (length empty) x in
           if 0 \<le> i \<and> i < int (length empty) then
             (case empty ! nat i of (r, c) \<Rightarrow>
                (case rng s1 of (y, s2) \<Rightarrow>
                   let v = (if y < 8106479329266893 / 2 ^ 53 then Fin 2 else Fin 4);
                       next = cloneBoard b
                   in Inr (next[r := (next ! r)[c := v]], s2)))
           else Inl TypeError))"

definition initializeBoard :: "nat \<Rightarrow> 's RNG \<Rightarrow> 's \<Rightarrow> error + (Board \<times> 's)" where
  "initializeBoard sz rng s =
     (case spawnRandomTile (createEmptyBoard sz) rng s of
        Inl e \<Rightarrow> Inl e
      | Inr (b1, s1) \<Rightarrow> spawnRandomTile b1 rng s1)"

section \<open>Slide and merge\<close>

definition arraysEqual :: "num list \<Rightarrow> num list \<Rightarrow> bool" where
  "arraysEqual a b =
     (length a = length b \<and> list_all (\<lambda>i. a ! i = b ! i) [0..<length a])"

text \<open>
  The \<open>for\<close> loop of \<open>slideAndMergeLine\<close>: the first argument is the part of \<open>filtered\<close>
  from index \<open>i\<close> on, the other two are the variables \<open>merged\<close> and \<open>gain\<close>. The sum
  \<open>current + next\<close> is stored in a cell; were it \<open>NaN\<close> the line would leave the grids of
  cell values and the model returns \<open>None\<close> (it never is: the two operands are equal,
  see \<open>merge_loop_Some\<close>).
\<close>

fun merge_loop :: "num list \<Rightarrow> num list \<Rightarrow> number \<Rightarrow> (num list \<times> number) option" where
  "merge_loop [] merged gain = Some (merged, gain)"
| "merge_loop [current] merged gain = Some (merged @ [current], gain)"
| "merge_loop (current # next # rest) merged gain =
     (if current = next
      then (case js_plus (Num current) (Num next) of
              NaN \<Rightarrow> None
            | Num val \<Rightarrow> merge_loop rest (merged @ [val]) (js_plus gain (Num val)))
      else merge_loop (next # rest) (merged @ [current]) gain)"

definition slideAndMergeLine :: "num list \<Rightarrow> (num list \<times> number \<times> bool) option" where
  "slideAndMergeLine line =
     (let filtered = filter (\<lambda>v. v \<noteq> Fin 0) line in
      case merge_loop filtered [] (Num (Fin 0)) of
        None \<Rightarrow> None
      | Some (merged, gain) \<Rightarrow>
          let result = merged @ replicate (length line - length merged) (Fin 0)
          in Some (result, gain, \<not> arraysEqual result line))"

text \<open>
  \<open>transpose\<close> reads \<open>board[r][c]\<close> for all \<open>r, c < board.length\<close>. When a row is shorter
  than that, the read is \<open>undefined\<close> and the result is no longer a grid of numbers:
  the model returns \<open>None\<close> there. Longer rows are cut, as in the source.
\<close>

definition transpose_board :: "Board \<Rightarrow> Board option" where
  "transpose_board b =
     (let sz = length b in
      if list_all (\<lambda>row. sz \<le> length row) b
      then Some (map (\<lambda>c. map (\<lambda>r. b ! r ! c) [0..<sz]) [0..<sz])
      else None)"

definition reverseRows :: "Board \<Rightarrow> Board" where
  "reverseRows b = map (\<lambda>row. rev row) b"

text \<open>
  The callback of \<open>working.map\<close> in \<open>move\<close>: it appends the processed row and updates
  the variables \<open>totalGain\<close> and \<open>anyMoved\<close>; \<open>process_rows\<close> is the \<open>map\<close> over the rows.
\<close>

definition process_row ::
  "num list \<Rightarrow> Board \<times> number \<times> bool \<Rightarrow> (Board \<times> number \<times> bool) option" where
  "process_row row st =
     (case st of (processed, totalGain, anyMoved) \<Rightarrow>
        (case slideAndMergeLine row of
           None \<Rightarrow> None
         | Some (result, gain, m) \<Rightarrow>
             Some (processed @ [result], js_plus totalGain gain,
                   (if m then True else anyMoved))))"

fun process_rows ::
  "Board \<Rightarrow> Board \<times> number \<times> bool \<Rightarrow> (Board \<times> number \<times> bool) option" where
  "process_rows [] st = Some st"
| "process_rows (row # rows) st =
     (case process_row row st of None \<Rightarrow> None | Some st' \<Rightarrow> process_rows rows st')"

definition move :: "Board \<Rightarrow> Direction \<Rightarrow> move_result option" where
  "move b direction =
     (let working = cloneBoard b in
      if direction = Left \<or> direction = Right then
        (let working1 = (if direction = Right then reverseRows working else working) in
         case process_rows working1 ([], Num (Fin 0), False) of
           None \<Rightarrow> None
         | Some (processed, totalGain, anyMoved) \<Rightarrow>
             Some \<lparr>board = (if direction = Right then reverseRows processed else processed),
                   gained = totalGain, moved = anyMoved\<rparr>)
      else
        (case transpose_board working of
           None \<Rightarrow> None
         | Some working0 \<Rightarrow>
             (let working1 = (if direction = Down then reverseRows working0 else working0) in
              case process_rows working1 ([], Num (Fin 0), False) of
                None \<Rightarrow> None
              | Some (processed, totalGain, anyMoved) \<Rightarrow>
                  (case transpose_board
                          (if direction = Down then reverseRows processed else processed) of
                     None \<Rightarrow> None
                   | Some working2 \<Rightarrow>
                       Some \<lparr>board = working2, gained = totalGain, moved = anyMoved\<rparr>))))"

section \<open>Terminal-state detection\<close>

definition has2048 :: "Board \<Rightarrow> bool" where
  "has2048 b = list_ex (\<lambda>row. list_ex (\<lambda>v. js_ge v 2048) row) b"

definition hasMoves :: "Board \<Rightarrow> bool" where
  "hasMoves b =
     (if list_ex (\<lambda>row. list_ex (\<lambda>v. v = Fin 0) row) b then True
      else
        (let sz = length b in
         list_ex (\<lambda>r. list_ex (\<lambda>c.
             (let v = cell b r c in
              (c + 1 < sz \<and> cell b r (c + 1) = v) \<or>
              (r + 1 < sz \<and> cell b (r + 1) c = v)))
           [0..<sz]) [0..<sz]))"

section \<open>Well-formed boards and random sources\<close>

definition square :: "Board \<Rightarrow> bool" where
  "square b = list_all (\<lambda>row. length row = length b) b"

text \<open>
  A tile is empty or a power of two that is at least 2; a well-formed board is square
  and holds tiles only.
\<close>

fun tile_ok :: "num \<Rightarrow> bool" where
  "tile_ok (Fin v) = (v = 0 \<or> (\<exists>k \<in> {1..nat v}. v = 2 ^ k))"
| "tile_ok PInf = False"
| "tile_ok NInf = False"

definition wf_board :: "Board \<Rightarrow> bool" where
  "wf_board b = (square b \<and> list_all (list_all tile_ok) b)"

text \<open>
  A cell whose double is exact and does not overflow: an integer that is a double (rounding
  leaves it alone) and of magnitude below \<open>2^1023\<close>.
\<close>

fun doubles_exactly :: "num \<Rightarrow> bool" where
  "doubles_exactly (Fin a) = (double_round a = a \<and> \<bar>a\<bar> < 2 ^ 1023)"
| "doubles_exactly PInf = False"
| "doubles_exactly NInf = False"

definition cells_double_exactly :: "Board \<Rightarrow> bool" where
  "cells_double_exactly b = list_all (list_all doubles_exactly) b"

text \<open>Every cell is below \<open>2^1023\<close>.\<close>

definition cells_below_overflow :: "Board \<Rightarrow> bool" where
  "cells_below_overflow b = list_all (list_all (\<lambda>v. \<not> js_ge v (2 ^ 1023))) b"

text \<open>
  A real number is a double when it is an integer number of units \<open>2^-1074\<close> that rounding
  leaves alone. A random source is in range when every call returns a double in \<open>[0, 1)\<close>.
\<close>

definition is_double :: "real \<Rightarrow> bool" where
  "is_double x =
     (x * 2 ^ 1074 = real_of_int \<lfloor>x * 2 ^ 1074\<rfloor> \<and>
      double_round \<lfloor>x * 2 ^ 1074\<rfloor> = \<lfloor>x * 2 ^ 1074\<rfloor>)"

definition rng_in_range :: "'s RNG \<Rightarrow> bool" where
  "rng_in_range rng =
     (\<forall>s. 0 \<le> fst (rng s) \<and> fst (rng s) < 1 \<and> is_double (fst (rng s)))"

section \<open>Auxiliary notions for the proofs\<close>

text \<open>
  The blocks into which the loop of \<open>slideAndMergeLine\<close> cuts the compacted line: a
  block is one tile that stays, or two equal neighbours that merge.
\<close>

fun blocks_of :: "'a list \<Rightarrow> 'a list list" where
  "blocks_of [] = []"
| "blocks_of [x] = [[x]]"
| "blocks_of (x # y # rest) =
     (if x = y then [x, y] # blocks_of rest else [x] # blocks_of (y # rest))"

text \<open>The cell that holds \<open>x + x\<close>, and the value of a block, added as the source adds.\<close>

fun twice :: "num \<Rightarrow> num" where
  "twice (Fin a) = overflow (double_round (a + a))"
| "twice PInf = PInf"
| "twice NInf = NInf"

fun block_cell :: "num list \<Rightarrow> num" where
  "block_cell [] = Fin 0"
| "block_cell [x] = x"
| "block_cell (x # y # rest) = twice x"

fun block_value :: "num list \<Rightarrow> number" where
  "block_value [] = Num (Fin 0)"
| "block_value [x] = Num x"
| "block_value (x # y # rest) = js_plus (Num x) (Num y)"

fun gain_loop :: "num list \<Rightarrow> number \<Rightarrow> number" where
  "gain_loop [] g = g"
| "gain_loop [x] g = g"
| "gain_loop (x # y # rest) g =
     (if x = y then gain_loop rest (js_plus g (Num (twice x))) else gain_loop (y # rest) g)"

definition line_result :: "num list \<Rightarrow> num list" where
  "line_result l =
     map block_cell (blocks_of (filter (\<lambda>v. v \<noteq> Fin 0) l))
       @ replicate (length l - length (blocks_of (filter (\<lambda>v. v \<noteq> Fin 0) l))) (Fin 0)"

definition line_gain :: "num list \<Rightarrow> number" where
  "line_gain l = gain_loop (filter (\<lambda>v. v \<noteq> Fin 0) l) (Num (Fin 0))"

definition line_moved :: "num list \<Rightarrow> bool" where
  "line_moved l = (line_result l \<noteq> l)"

fun total_gain :: "num list list \<Rightarrow> number \<Rightarrow> number" where
  "total_gain [] g = g"
| "total_gain (l # ls) g = total_gain ls (js_plus g (line_gain l))"

text \<open>The transposed grid of a square board, as \<open>transpose\<close> builds it.\<close>

definition tr :: "'a list list \<Rightarrow> 'a list list" where
  "tr b = map (\<lambda>c. map (\<lambda>r. b ! r ! c) [0..<length b]) [0..<length b]"

text \<open>
  The lines of a board in the direction of travel (the value of \<open>working\<close> when the rows
  are processed), and the way back.
\<close>

definition lines_of :: "Direction \<Rightarrow> Board \<Rightarrow> Board" where
  "lines_of d b =
     (case d of Left \<Rightarrow> b | Right \<Rightarrow> reverseRows b
              | Up \<Rightarrow> tr b | Down \<Rightarrow> reverseRows (tr b))"

definition unlines :: "Direction \<Rightarrow> Board \<Rightarrow> Board" where
  "unlines d b =
     (case d of Left \<Rightarrow> b | Right \<Rightarrow> reverseRows b
              | Up \<Rightarrow> tr b | Down \<Rightarrow> tr (reverseRows b))"

text \<open>
  The sum of the tiles of a board, in the integers extended by the two infinities: sums
  are exact, and the sum of the two infinities is undefined (\<open>NaN\<close>).
\<close>

fun exact_plus :: "number \<Rightarrow> number \<Rightarrow> number" where
  "exact_plus (Num (Fin a)) (Num (Fin b)) = Num (Fin (a + b))"
| "exact_plus (Num PInf) (Num NInf) = NaN"
| "exact_plus (Num NInf) (Num PInf) = NaN"
| "exact_plus (Num PInf) (Num y) = Num PInf"
| "exact_plus (Num x) (Num PInf) = Num PInf"
| "exact_plus (Num NInf) (Num y) = Num NInf"
| "exact_plus (Num x) (Num NInf) = Num NInf"
| "exact_plus NaN y = NaN"
| "exact_plus x NaN = NaN"

definition board_sum :: "Board \<Rightarrow> number" where
  "board_sum b = foldr (\<lambda>v s. exact_plus (Num v) s) (concat b) (Num (Fin 0))"

text \<open>The integer in a finite cell, and the sum of the integers of a board.\<close>

fun val :: "num \<Rightarrow> int" where
  "val (Fin a) = a"
| "val PInf = 0"
| "val NInf = 0"

definition vals_sum :: "Board \<Rightarrow> int" where
  "vals_sum b = sum_list (map (\<lambda>row. sum_list (map val row)) b)"

text \<open>The 32-bit word that an integer of the source stands for.\<close>

abbreviation W :: "int \<Rightarrow> 32 word" where
  "W \<equiv> word_of_int"

section \<open>Rounding to a double\<close>

lemma double_round_small: "\<bar>x\<bar> < 2 ^ 53 \<Longrightarrow> double_round x = x"
  by (simp add: double_round_def Let_def)

lemma bitlen_large:
  assumes "(2 :: int) ^ 53 \<le> a"
  shows "54 \<le> nat (bitlen a)" and "2 ^ (nat (bitlen a) - 1) \<le> a" and "a < 2 ^ nat (bitlen a)"
proof -
  have pos: "0 < a" using assms by (smt (verit) zero_less_power)
  from bitlen_bounds [OF pos] have b: "2 ^ nat (bitlen a - 1) \<le> a" "a < 2 ^ nat (bitlen a)"
    by simp_all
  show "a < 2 ^ nat (bitlen a)" by fact
  have lt: "(2 :: int) ^ 53 < 2 ^ nat (bitlen a)" using assms b(2) by linarith
  have "53 < nat (bitlen a)" by (rule power_less_imp_less_exp [OF _ lt]) simp
  then show "54 \<le> nat (bitlen a)" by simp
  then have "nat (bitlen a - 1) = nat (bitlen a) - 1" by simp
  with b(1) show "2 ^ (nat (bitlen a) - 1) \<le> a" by simp
qed

lemma double_round_large:
  assumes "(2 :: int) ^ 53 \<le> \<bar>x\<bar>"
  shows "double_round x =
           sgn x * (if \<bar>x\<bar> mod 2 ^ (nat (bitlen \<bar>x\<bar>) - 53) > 2 ^ (nat (bitlen \<bar>x\<bar>) - 54) \<or>
                       (\<bar>x\<bar> mod 2 ^ (nat (bitlen \<bar>x\<bar>) - 53) = 2 ^ (nat (bitlen \<bar>x\<bar>) - 54) \<and>
                        odd (\<bar>x\<bar> div 2 ^ (nat (bitlen \<bar>x\<bar>) - 53)))
                    then \<bar>x\<bar> div 2 ^ (nat (bitlen \<bar>x\<bar>) - 53) + 1
                    else \<bar>x\<bar> div 2 ^ (nat (bitlen \<bar>x\<bar>) - 53))
             * 2 ^ (nat (bitlen \<bar>x\<bar>) - 53)"
proof -
  have "nat (bitlen \<bar>x\<bar>) - 53 - 1 = nat (bitlen \<bar>x\<bar>) - 54" by simp
  then show ?thesis using assms by (simp add: double_round_def Let_def)
qed

lemma double_round_nonneg_bound:
  assumes "0 \<le> a"
  shows "0 \<le> double_round a \<and> 2 ^ 53 * double_round a \<le> (2 ^ 53 + 1) * a"
proof (cases "a < 2 ^ 53")
  case True
  then have "double_round a = a" using assms by (intro double_round_small) simp
  then show ?thesis using assms by (simp add: algebra_simps)
next
  case False
  then have big: "(2 :: int) ^ 53 \<le> \<bar>a\<bar>" using assms by simp
  define n where "n = nat (bitlen a)"
  define e where "e = n - 53"
  define q where "q = a div 2 ^ e"
  define r where "r = a mod 2 ^ e"
  define h where "h = (2 :: int) ^ (n - 54)"
  have abs: "\<bar>a\<bar> = a" using assms by simp
  have n: "54 \<le> n" "2 ^ (n - 1) \<le> a" "a < 2 ^ n"
    using bitlen_large [of a] False by (simp_all add: n_def)
  have a: "a = q * 2 ^ e + r" unfolding q_def r_def by (rule div_mult_mod_eq [symmetric])
  have r: "0 \<le> r" "r < 2 ^ e" by (simp_all add: r_def)
  have he: "(2 :: int) ^ e = 2 * h"
  proof -
    have "e = Suc (n - 54)" using n(1) by (simp add: e_def)
    then show ?thesis by (simp add: h_def)
  qed
  have hn: "2 ^ 53 * h = (2 :: int) ^ (n - 1)"
  proof -
    have "n - 1 = 53 + (n - 54)" using n(1) by simp
    then show ?thesis by (simp only: h_def power_add)
  qed
  have q0: "0 \<le> q" using assms by (simp add: q_def pos_imp_zdiv_nonneg_iff)
  have sg: "sgn a = 1" using big assms by (smt (verit) sgn_1_pos zero_less_power)
  have dr: "double_round a = (if r > h \<or> (r = h \<and> odd q) then q + 1 else q) * 2 ^ e"
    using double_round_large [OF big] by (simp add: abs sg n_def e_def q_def r_def h_def)
  have up: "(q + 1) * 2 ^ e \<le> a + h" if "h \<le> r"
  proof -
    have "(q + 1) * 2 ^ e = a - r + 2 * h" using a he by (simp add: algebra_simps)
    then show ?thesis using that by simp
  qed
  have down: "q * 2 ^ e \<le> a" using a r(1) by simp
  have "double_round a \<le> a + h"
  proof (cases "r > h \<or> (r = h \<and> odd q)")
    case True
    then have "h \<le> r" by auto
    moreover from True dr have "double_round a = (q + 1) * 2 ^ e" by (simp only: if_True)
    ultimately show ?thesis using up by simp
  next
    case False
    have "0 \<le> h" by (simp add: h_def)
    moreover from False dr have "double_round a = q * 2 ^ e" by (simp only: if_False)
    ultimately show ?thesis using down by simp
  qed
  then have "2 ^ 53 * double_round a \<le> 2 ^ 53 * a + 2 ^ 53 * h" by (simp add: algebra_simps)
  also have "\<dots> \<le> 2 ^ 53 * a + a" using hn n(2) by simp
  finally have b: "2 ^ 53 * double_round a \<le> (2 ^ 53 + 1) * a" by (simp add: algebra_simps)
  have "0 \<le> (if r > h \<or> (r = h \<and> odd q) then q + 1 else q) * (2 :: int) ^ e"
    using q0 by (intro mult_nonneg_nonneg) simp_all
  with dr b show ?thesis by simp
qed

lemma double_round_nonzero:
  assumes "x \<noteq> 0"
  shows "double_round x \<noteq> 0"
proof (cases "\<bar>x\<bar> < 2 ^ 53")
  case True
  then show ?thesis using assms by (simp add: double_round_small)
next
  case False
  then have big: "(2 :: int) ^ 53 \<le> \<bar>x\<bar>" by simp
  define e where "e = nat (bitlen \<bar>x\<bar>) - 53"
  define q where "q = \<bar>x\<bar> div 2 ^ e"
  define m where "m = (if \<bar>x\<bar> mod 2 ^ e > 2 ^ (nat (bitlen \<bar>x\<bar>) - 54) \<or>
                       (\<bar>x\<bar> mod 2 ^ e = 2 ^ (nat (bitlen \<bar>x\<bar>) - 54) \<and> odd q)
                    then q + 1 else q)"
  have n: "54 \<le> nat (bitlen \<bar>x\<bar>)" "2 ^ (nat (bitlen \<bar>x\<bar>) - 1) \<le> \<bar>x\<bar>"
    using bitlen_large [OF big] by simp_all
  have "(2 :: int) ^ e \<le> 2 ^ (nat (bitlen \<bar>x\<bar>) - 1)"
    unfolding e_def by (rule power_increasing) simp_all
  with n(2) have le: "(2 :: int) ^ e \<le> \<bar>x\<bar>" by linarith
  have "0 < (2 :: int) ^ e" by simp
  then have q: "0 < q" unfolding q_def using le by (simp only: pos_imp_zdiv_pos_iff)
  then have m: "0 < m" unfolding m_def by (simp split: if_splits)
  have dr: "double_round x = sgn x * m * 2 ^ e"
    unfolding m_def q_def e_def by (rule double_round_large [OF big])
  have "sgn x \<noteq> 0" using assms by (simp only: sgn_eq_0_iff not_False_eq_True)
  moreover have "m \<noteq> 0" using m by simp
  moreover have "(2 :: int) ^ e \<noteq> 0" by simp
  ultimately have "sgn x * m * 2 ^ e \<noteq> 0" by (simp only: mult_eq_0_iff simp_thms)
  with dr show ?thesis by simp
qed

lemma bitlen_twice: "0 < a \<Longrightarrow> bitlen (2 * a) = bitlen a + 1"
  using bitlen_pow2 [of a 1] by (simp add: mult.commute)

lemma twice_div: "2 * a div 2 ^ Suc e = a div (2 :: int) ^ e"
proof -
  have "(2 * a) div (2 * 2 ^ e) = a div (2 :: int) ^ e" by (rule div_mult_mult1) simp
  then show ?thesis by (simp only: power_Suc)
qed

lemma twice_mod: "2 * a mod 2 ^ Suc e = 2 * (a mod (2 :: int) ^ e)"
  by (simp only: power_Suc mult_mod_right)

lemma double_round_twice: "double_round (2 * x) = 2 * double_round x"
proof -
  consider "\<bar>2 * x\<bar> < 2 ^ 53" | "\<bar>x\<bar> < 2 ^ 53" "2 ^ 53 \<le> \<bar>2 * x\<bar>" | "2 ^ 53 \<le> \<bar>x\<bar>"
    by linarith
  then show ?thesis
  proof cases
    case 1
    then have "\<bar>x\<bar> < 2 ^ 53" by simp
    with 1 show ?thesis by (simp add: double_round_small)
  next
    case 2
    define A where "A = \<bar>2 * x\<bar>"
    define M where "M = (if A mod 2 ^ (nat (bitlen A) - 53) > 2 ^ (nat (bitlen A) - 54) \<or>
                       (A mod 2 ^ (nat (bitlen A) - 53) = 2 ^ (nat (bitlen A) - 54) \<and>
                        odd (A div 2 ^ (nat (bitlen A) - 53)))
                    then A div 2 ^ (nat (bitlen A) - 53) + 1
                    else A div 2 ^ (nat (bitlen A) - 53))"
    have A: "2 ^ 53 \<le> A" "A < 2 ^ 54" "A = 2 * \<bar>x\<bar>" using 2 by (simp_all add: A_def)
    have n: "54 \<le> nat (bitlen A)" "2 ^ (nat (bitlen A) - 1) \<le> A"
      using bitlen_large [OF A(1)] by simp_all
    have lt: "(2 :: int) ^ (nat (bitlen A) - 1) < 2 ^ 54" using n(2) A(2) by linarith
    have "nat (bitlen A) - 1 < 54" by (rule power_less_imp_less_exp [OF _ lt]) simp
    with n(1) have n54: "nat (bitlen A) = 54" by simp
    have dr: "double_round (2 * x) = sgn (2 * x) * M * 2 ^ (nat (bitlen A) - 53)"
      unfolding M_def A_def by (rule double_round_large) (use 2 in simp)
    have "M = \<bar>x\<bar>" unfolding M_def n54 by (simp add: A(3))
    with dr have "double_round (2 * x) = sgn (2 * x) * \<bar>x\<bar> * 2" by (simp add: n54)
    also have "\<dots> = 2 * (sgn x * \<bar>x\<bar>)" by (simp add: sgn_mult)
    also have "\<dots> = 2 * x" by (simp only: mult_sgn_abs)
    finally show ?thesis using 2(1) by (simp add: double_round_small)
  next
    case 3
    define a where "a = \<bar>x\<bar>"
    define n where "n = nat (bitlen a)"
    define e where "e = n - 53"
    define r where "r = a mod 2 ^ e"
    define q where "q = a div 2 ^ e"
    define h where "h = (2 :: int) ^ (n - 54)"
    define M where "M = (if r > h \<or> (r = h \<and> odd q) then q + 1 else q)"
    have big: "2 ^ 53 \<le> a" using 3 by (simp add: a_def)
    then have pos: "0 < a" by (smt (verit) zero_less_power)
    have big2: "2 ^ 53 \<le> \<bar>2 * x\<bar>" using 3 by simp
    have a2: "\<bar>2 * x\<bar> = 2 * a" by (simp add: a_def)
    have n: "54 \<le> n" using bitlen_large(1) [OF big] by (simp add: n_def)
    have n2: "nat (bitlen (2 * a)) = Suc n"
      using bitlen_twice [OF pos] bitlen_nonneg [of a] by (simp add: n_def)
    have e2: "Suc n - 53 = Suc e" "Suc n - 54 = Suc (n - 54)" using n by (simp_all add: e_def)
    have d2: "2 * a div 2 ^ Suc e = q" unfolding q_def by (rule twice_div)
    have m2: "2 * a mod 2 ^ Suc e = 2 * r" unfolding r_def by (rule twice_mod)
    have h2: "(2 :: int) ^ Suc (n - 54) = 2 * h" by (simp add: h_def)
    have dr: "double_round x = sgn x * M * 2 ^ e"
      unfolding M_def r_def q_def h_def e_def n_def a_def by (rule double_round_large [OF 3])
    have "double_round (2 * x) =
            sgn (2 * x) * (if 2 * r > 2 * h \<or> (2 * r = 2 * h \<and> odd q) then q + 1 else q)
              * 2 ^ Suc e"
      using double_round_large [OF big2] unfolding a2 n2 e2 d2 m2 h2 .
    also have "(if 2 * r > 2 * h \<or> (2 * r = 2 * h \<and> odd q) then q + 1 else q) = M"
      unfolding M_def by simp
    also have "sgn (2 * x) * M * 2 ^ Suc e = 2 * (sgn x * M * 2 ^ e)"
      by (simp add: sgn_mult)
    finally show ?thesis by (simp only: dr)
  qed
qed

lemma double_round_pow2: "double_round (2 ^ k) = 2 ^ k"
proof (induction k)
  case 0
  have "double_round 1 = 1" by (rule double_round_small) simp
  then show ?case by simp
next
  case (Suc k)
  have "double_round (2 * 2 ^ k) = 2 * double_round (2 ^ k)" by (rule double_round_twice)
  with Suc show ?case by (simp only: power_Suc)
qed

section \<open>Lines and blocks\<close>

lemma arraysEqual_iff: "arraysEqual a b \<longleftrightarrow> a = b"
  unfolding arraysEqual_def list_all_iff by (auto intro: nth_equalityI)

lemma js_plus_same: "js_plus (Num x) (Num x) = Num (twice x)"
  by (cases x) simp_all

lemma merge_loop_blocks:
  "merge_loop xs merged gain =
     Some (merged @ map block_cell (blocks_of xs), gain_loop xs gain)"
  by (induction xs merged gain rule: merge_loop.induct) (simp_all add: js_plus_same)

lemma merge_loop_Some: "merge_loop xs merged gain \<noteq> None"
  by (simp add: merge_loop_blocks)

lemma concat_blocks_of: "concat (blocks_of xs) = xs"
  by (induction xs rule: blocks_of.induct) simp_all

lemma blocks_of_shape:
  "bl \<in> set (blocks_of xs) \<Longrightarrow> (\<exists>x. bl = [x]) \<or> (\<exists>x. bl = [x, x])"
  by (induction xs rule: blocks_of.induct) (auto split: if_splits)

lemma length_blocks_of: "length (blocks_of xs) \<le> length xs"
  by (induction xs rule: blocks_of.induct) auto

lemma blocks_of_full:
  "length (blocks_of xs) = length xs \<Longrightarrow> blocks_of xs = map (\<lambda>x. [x]) xs"
proof (induction xs rule: blocks_of.induct)
  case (3 x y rest)
  have "length (blocks_of rest) \<le> length rest" by (rule length_blocks_of)
  with 3 show ?case by (auto split: if_splits)
qed simp_all

lemma gain_loop_full: "length (blocks_of xs) = length xs \<Longrightarrow> gain_loop xs g = g"
proof (induction xs arbitrary: g rule: blocks_of.induct)
  case (3 x y rest)
  have "length (blocks_of rest) \<le> length rest" by (rule length_blocks_of)
  with 3 show ?case by (auto split: if_splits)
qed simp_all

lemma overflow_nonzero: "v \<noteq> 0 \<Longrightarrow> overflow v \<noteq> Fin 0"
  by (simp add: overflow_def)

lemma twice_nonzero: "x \<noteq> Fin 0 \<Longrightarrow> twice x \<noteq> Fin 0"
proof (cases x)
  case (Fin a)
  assume "x \<noteq> Fin 0"
  with Fin have "a + a \<noteq> 0" by simp
  then have "double_round (a + a) \<noteq> 0" by (rule double_round_nonzero)
  then show ?thesis using Fin by (simp add: overflow_nonzero)
qed simp_all

lemma blocks_of_nonzero_all:
  "list_all (\<lambda>x. x \<noteq> Fin 0) xs \<Longrightarrow>
     list_all (\<lambda>y. y \<noteq> Fin 0) (map block_cell (blocks_of xs))"
  by (induction xs rule: blocks_of.induct) (simp_all add: twice_nonzero)

lemma blocks_of_nonzero:
  assumes "Fin 0 \<notin> set xs"
  shows "Fin 0 \<notin> set (map block_cell (blocks_of xs))"
proof -
  from assms have "list_all (\<lambda>x. x \<noteq> Fin 0) xs" unfolding list_all_iff by blast
  then have "list_all (\<lambda>y. y \<noteq> Fin 0) (map block_cell (blocks_of xs))"
    by (rule blocks_of_nonzero_all)
  then show ?thesis unfolding list_all_iff by blast
qed

lemma slide_parts: "slideAndMergeLine l = Some (line_result l, line_gain l, line_moved l)"
  by (simp add: slideAndMergeLine_def merge_loop_blocks arraysEqual_iff Let_def
      line_result_def line_gain_def line_moved_def)

lemma length_blocks_filter:
  "length (blocks_of (filter (\<lambda>v. v \<noteq> Fin 0) l)) \<le> length l"
  using length_blocks_of [of "filter (\<lambda>v. v \<noteq> Fin 0) l"] length_filter_le [of "\<lambda>v. v \<noteq> Fin 0" l]
  by linarith

lemma length_line_result: "length (line_result l) = length l"
  using length_blocks_filter [of l] by (simp add: line_result_def)

lemma filter_nonzero_line_result:
  "filter (\<lambda>v. v \<noteq> Fin 0) (line_result l)
     = map block_cell (blocks_of (filter (\<lambda>v. v \<noteq> Fin 0) l))"
proof -
  have "Fin 0 \<notin> set (map block_cell (blocks_of (filter (\<lambda>v. v \<noteq> Fin 0) l)))"
    by (rule blocks_of_nonzero) simp
  then have "filter (\<lambda>v. v \<noteq> Fin 0) (map block_cell (blocks_of (filter (\<lambda>v. v \<noteq> Fin 0) l)))
               = map block_cell (blocks_of (filter (\<lambda>v. v \<noteq> Fin 0) l))"
    by (intro filter_True) metis
  then show ?thesis by (simp add: line_result_def)
qed

lemma unmoved_length:
  assumes "\<not> line_moved l"
  shows "length (blocks_of (filter (\<lambda>v. v \<noteq> Fin 0) l)) = length (filter (\<lambda>v. v \<noteq> Fin 0) l)"
proof -
  from assms have "line_result l = l" by (simp add: line_moved_def)
  then have "filter (\<lambda>v. v \<noteq> Fin 0) l = map block_cell (blocks_of (filter (\<lambda>v. v \<noteq> Fin 0) l))"
    using filter_nonzero_line_result [of l] by simp
  then show ?thesis by (metis length_map)
qed

lemma unmoved_gain: "\<not> line_moved l \<Longrightarrow> line_gain l = Num (Fin 0)"
  unfolding line_gain_def by (rule gain_loop_full) (rule unmoved_length)

lemma process_rows_eq:
  "process_rows ws (p, g, m) =
     Some (p @ map line_result ws, total_gain ws g, m \<or> list_ex line_moved ws)"
  by (induction ws arbitrary: p g m) (auto simp: process_row_def slide_parts)

lemma cloneBoard_id: "cloneBoard b = b"
  by (simp add: cloneBoard_def)

lemma reverseRows_twice: "reverseRows (reverseRows b) = b"
  by (simp add: reverseRows_def comp_def)

lemma move_Left:
  "move b Left = Some \<lparr>board = map line_result b, gained = total_gain b (Num (Fin 0)),
                       moved = list_ex line_moved b\<rparr>"
  by (simp add: move_def cloneBoard_id process_rows_eq Let_def)

lemma move_Right:
  "move b Right = Some \<lparr>board = reverseRows (map line_result (reverseRows b)),
                        gained = total_gain (reverseRows b) (Num (Fin 0)),
                        moved = list_ex line_moved (reverseRows b)\<rparr>"
  by (simp add: move_def cloneBoard_id process_rows_eq Let_def)

section \<open>Transposition and the four directions\<close>

lemma square_iff: "square b \<longleftrightarrow> (\<forall>row \<in> set b. length row = length b)"
  by (simp add: square_def list_all_iff)

lemma square_nth: "square b \<Longrightarrow> r < length b \<Longrightarrow> length (b ! r) = length b"
  by (simp add: square_iff)

lemma transpose_board_square: "square b \<Longrightarrow> transpose_board b = Some (tr b)"
  by (simp add: transpose_board_def tr_def square_iff list_all_iff Let_def)

lemma length_tr: "length (tr b) = length b"
  by (simp add: tr_def)

lemma square_tr: "square (tr b)"
  by (simp add: square_iff tr_def)

lemma tr_nth: "r < length b \<Longrightarrow> c < length b \<Longrightarrow> tr b ! c ! r = b ! r ! c"
  by (simp add: tr_def)

lemma tr_tr: "square b \<Longrightarrow> tr (tr b) = b"
proof (rule nth_equalityI)
  show "length (tr (tr b)) = length b" by (simp add: length_tr)
next
  fix r assume sq: "square b" and r: "r < length (tr (tr b))"
  then have r': "r < length b" by (simp add: length_tr)
  show "tr (tr b) ! r = b ! r"
  proof (rule nth_equalityI)
    show "length (tr (tr b) ! r) = length (b ! r)"
      using sq r' by (simp add: tr_def square_nth)
  next
    fix c assume "c < length (tr (tr b) ! r)"
    then have c: "c < length b" using r' by (simp add: tr_def)
    show "tr (tr b) ! r ! c = b ! r ! c"
      using r' c by (simp add: tr_nth length_tr)
  qed
qed

lemma length_reverseRows: "length (reverseRows b) = length b"
  by (simp add: reverseRows_def)

lemma square_reverseRows: "square (reverseRows b) \<longleftrightarrow> square b"
  by (simp add: square_iff reverseRows_def)

lemma square_map_line_result: "square (map line_result b) \<longleftrightarrow> square b"
  by (simp add: square_iff length_line_result)

lemma square_lines_of: "square b \<Longrightarrow> square (lines_of d b)"
  by (cases d) (simp_all add: lines_of_def square_reverseRows square_tr)

lemma length_lines_of: "length (lines_of d b) = length b"
  by (cases d) (simp_all add: lines_of_def length_reverseRows length_tr)

lemma tr_reverseRows_square: "square (reverseRows (map line_result (reverseRows (tr b))))"
  by (simp add: square_reverseRows square_map_line_result square_tr)

lemma move_square:
  assumes "square b"
  shows "move b d = Some \<lparr>board = unlines d (map line_result (lines_of d b)),
                          gained = total_gain (lines_of d b) (Num (Fin 0)),
                          moved = list_ex line_moved (lines_of d b)\<rparr>"
proof (cases d)
  case Left
  then show ?thesis by (simp add: move_Left lines_of_def unlines_def)
next
  case Right
  then show ?thesis by (simp add: move_Right lines_of_def unlines_def)
next
  case Up
  have "square (map line_result (tr b))"
    by (simp add: square_map_line_result square_tr)
  then show ?thesis using assms Up
    by (simp add: move_def cloneBoard_id transpose_board_square process_rows_eq
        lines_of_def unlines_def Let_def)
next
  case Down
  have "square (reverseRows (map line_result (reverseRows (tr b))))"
    by (rule tr_reverseRows_square)
  then show ?thesis using assms Down
    by (simp add: move_def cloneBoard_id transpose_board_square process_rows_eq
        lines_of_def unlines_def Let_def)
qed

lemma unlines_lines_of: "square b \<Longrightarrow> unlines d (lines_of d b) = b"
  by (cases d) (simp_all add: lines_of_def unlines_def reverseRows_twice tr_tr)

lemma lines_of_unlines: "square b \<Longrightarrow> lines_of d (unlines d b) = b"
  by (cases d)
     (simp_all add: lines_of_def unlines_def reverseRows_twice tr_tr square_reverseRows)

section \<open>Blocked moves\<close>

lemma js_plus_exact:
  "\<bar>a + b\<bar> < 2 ^ 53 \<Longrightarrow> js_plus (Num (Fin a)) (Num (Fin b)) = Num (Fin (a + b))"
proof -
  assume s: "\<bar>a + b\<bar> < 2 ^ 53"
  have "(2 :: int) ^ 53 < 2 ^ 1024" by (rule power_strict_increasing) simp_all
  with s have "\<bar>a + b\<bar> < 2 ^ 1024" by linarith
  then have "overflow (a + b) = Fin (a + b)" unfolding overflow_def by auto
  then show ?thesis using s by (simp add: double_round_small)
qed

lemma double_round_0: "double_round 0 = 0"
  by (simp add: double_round_small)

lemma overflow_0: "overflow 0 = Fin 0"
  by (simp add: overflow_def)

lemma js_plus_zero: "js_plus (Num (Fin 0)) (Num (Fin 0)) = Num (Fin 0)"
  using js_plus_exact [of 0 0] by simp

lemma unmoved_lines_result: "\<not> list_ex line_moved ls \<Longrightarrow> map line_result ls = ls"
  by (induction ls) (simp_all add: line_moved_def)

lemma unmoved_lines_gain:
  "\<not> list_ex line_moved ls \<Longrightarrow> total_gain ls (Num (Fin 0)) = Num (Fin 0)"
  by (induction ls) (simp_all add: unmoved_gain double_round_0 overflow_0)

text \<open>
  C2: for a square board and any direction, a move that reports \<open>moved = false\<close>
  returns the input board cell for cell and gains nothing.
\<close>

theorem move_blocked_is_noop:
  assumes "square b"
  shows "\<exists>res. move b d = Some res \<and>
           (\<not> moved res \<longrightarrow> board res = b \<and> gained res = Num (Fin 0))"
proof -
  let ?res = "\<lparr>board = unlines d (map line_result (lines_of d b)),
               gained = total_gain (lines_of d b) (Num (Fin 0)),
               moved = list_ex line_moved (lines_of d b)\<rparr>"
  have m: "move b d = Some ?res" using assms by (rule move_square)
  have "board ?res = b \<and> gained ?res = Num (Fin 0)" if "\<not> moved ?res"
  proof -
    from that have nm: "\<not> list_ex line_moved (lines_of d b)" by simp
    show ?thesis
      using unmoved_lines_result [OF nm] unmoved_lines_gain [OF nm]
        unlines_lines_of [OF assms, of d] by simp
  qed
  with m show ?thesis by blast
qed

theorem move_blocked_is_noop_witness:
  "square [[Fin 2, Fin 4], [Fin 0, Fin 0]] \<and>
   (\<exists>res. move [[Fin 2, Fin 4], [Fin 0, Fin 0]] Up = Some res \<and> \<not> moved res \<and>
          board res = [[Fin 2, Fin 4], [Fin 0, Fin 0]] \<and> gained res = Num (Fin 0))"
proof -
  have sq: "square [[Fin 2, Fin 4], [Fin 0, Fin 0]]" by code_simp
  have ev: "move [[Fin 2, Fin 4], [Fin 0, Fin 0]] Up
              = Some \<lparr>board = [[Fin 2, Fin 4], [Fin 0, Fin 0]], gained = Num (Fin 0),
                      moved = False\<rparr>"
    by code_simp
  from move_blocked_is_noop [OF sq, of Up] obtain res
    where r: "move [[Fin 2, Fin 4], [Fin 0, Fin 0]] Up = Some res"
      and imp: "\<not> moved res \<longrightarrow>
                  board res = [[Fin 2, Fin 4], [Fin 0, Fin 0]] \<and> gained res = Num (Fin 0)"
    by blast
  from r ev have "res = \<lparr>board = [[Fin 2, Fin 4], [Fin 0, Fin 0]], gained = Num (Fin 0),
                          moved = False\<rparr>" by simp
  then have "\<not> moved res" by simp
  with imp r sq show ?thesis by blast
qed

section \<open>The sum of the tiles\<close>

lemma cells_reverseRows:
  "list_all (list_all P) (reverseRows b) \<longleftrightarrow> list_all (list_all P) b"
  by (simp add: list_all_iff reverseRows_def)

lemma cells_tr:
  assumes "square b" and "list_all (list_all P) b"
  shows "list_all (list_all P) (tr b)"
proof -
  have "P (b ! r ! c)" if "r < length b" "c < length b" for r c
  proof -
    from that assms(1) have "c < length (b ! r)" by (simp add: square_nth)
    moreover from that have "b ! r \<in> set b" by simp
    ultimately have "b ! r ! c \<in> set (b ! r)" "b ! r \<in> set b" by simp_all
    with assms(2) show ?thesis unfolding list_all_iff by blast
  qed
  then show ?thesis by (simp add: tr_def list_all_iff)
qed

lemma cells_lines_of:
  "square b \<Longrightarrow> list_all (list_all P) b \<Longrightarrow> list_all (list_all P) (lines_of d b)"
  by (cases d) (simp_all add: lines_of_def cells_reverseRows cells_tr)

lemma cells_unlines:
  "square b \<Longrightarrow> list_all (list_all P) b \<Longrightarrow> list_all (list_all P) (unlines d b)"
  by (cases d) (simp_all add: unlines_def cells_reverseRows cells_tr square_reverseRows)

lemma twice_exact: "doubles_exactly x \<Longrightarrow> twice x = Fin (2 * val x)"
proof (cases x)
  case (Fin a)
  assume "doubles_exactly x"
  with Fin have d: "double_round a = a" and s: "\<bar>a\<bar> < 2 ^ 1023" by simp_all
  have "double_round (2 * a) = 2 * a" using double_round_twice [of a] d by simp
  moreover have "\<bar>2 * a\<bar> < 2 ^ 1024" using s by simp
  then have "overflow (2 * a) = Fin (2 * a)" unfolding overflow_def by auto
  moreover have "a + a = 2 * a" by simp
  ultimately show ?thesis using Fin by (simp only: twice.simps val.simps)
qed simp_all

lemma exact_is_fin: "doubles_exactly x \<Longrightarrow> x = Fin (val x)"
  by (cases x) simp_all

lemma blocks_vals:
  "list_all doubles_exactly xs \<Longrightarrow>
     map block_cell (blocks_of xs) = map Fin (map val (map block_cell (blocks_of xs))) \<and>
     sum_list (map val (map block_cell (blocks_of xs))) = sum_list (map val xs)"
proof (induction xs rule: blocks_of.induct)
  case 1
  show ?case by simp
next
  case (2 x)
  then show ?case using exact_is_fin [of x] by simp
next
  case (3 x y rest)
  then show ?case using exact_is_fin [of x] twice_exact [of x] by (auto split: if_splits)
qed

lemma sum_val_filter: "sum_list (map val (filter (\<lambda>v. v \<noteq> Fin 0) l)) = sum_list (map val l)"
  by (induction l) auto

lemma line_result_vals:
  assumes "list_all doubles_exactly l"
  shows "line_result l = map Fin (map val (line_result l))"
    and "sum_list (map val (line_result l)) = sum_list (map val l)"
proof -
  let ?f = "filter (\<lambda>v. v \<noteq> Fin 0) l"
  have "list_all doubles_exactly ?f" using assms by (simp add: list_all_iff)
  from blocks_vals [OF this]
  have a: "map block_cell (blocks_of ?f) = map Fin (map val (map block_cell (blocks_of ?f)))"
    and b: "sum_list (map val (map block_cell (blocks_of ?f))) = sum_list (map val ?f)"
    by simp_all
  have "line_result l = map block_cell (blocks_of ?f) @ replicate (length l - length (blocks_of ?f)) (Fin 0)"
    by (simp add: line_result_def)
  also have "\<dots> = map Fin (map val (map block_cell (blocks_of ?f)))
                  @ map Fin (map val (replicate (length l - length (blocks_of ?f)) (Fin 0)))"
    using a by simp
  finally show "line_result l = map Fin (map val (line_result l))"
    by (simp add: line_result_def)
  show "sum_list (map val (line_result l)) = sum_list (map val l)"
    using b by (simp add: line_result_def sum_val_filter sum_list_replicate)
qed

lemma sum_list_rev_int: "sum_list (rev xs) = sum_list (xs :: int list)"
  by (induction xs) simp_all

lemma vals_sum_reverseRows: "vals_sum (reverseRows b) = vals_sum b"
  by (simp add: vals_sum_def reverseRows_def comp_def rev_map [symmetric] sum_list_rev_int)

lemma sum_list_upt_conv: "sum_list (map f [0..<n]) = (\<Sum>i<n. (f i :: int))"
  by (induction n) simp_all

lemma vals_sum_square:
  assumes "square b"
  shows "vals_sum b = (\<Sum>r<length b. \<Sum>c<length b. val (b ! r ! c))"
proof -
  have "map (\<lambda>row. sum_list (map val row)) (map ((!) b) [0..<length b])
          = map (\<lambda>r. sum_list (map val (b ! r))) [0..<length b]"
    by simp
  then have "vals_sum b = sum_list (map (\<lambda>r. sum_list (map val (b ! r))) [0..<length b])"
    unfolding vals_sum_def by (simp only: map_nth)
  also have "\<dots> = (\<Sum>r<length b. sum_list (map val (b ! r)))"
    by (rule sum_list_upt_conv)
  also have "\<dots> = (\<Sum>r<length b. \<Sum>c<length b. val (b ! r ! c))"
  proof (rule sum.cong)
    fix r assume "r \<in> {..<length b}"
    then have len: "length (b ! r) = length b" using assms by (simp add: square_nth)
    have "map val (map ((!) (b ! r)) [0..<length (b ! r)])
            = map (\<lambda>c. val (b ! r ! c)) [0..<length (b ! r)]"
      by simp
    then have "map val (b ! r) = map (\<lambda>c. val (b ! r ! c)) [0..<length (b ! r)]"
      by (simp only: map_nth)
    then have "sum_list (map val (b ! r)) = (\<Sum>c<length (b ! r). val (b ! r ! c))"
      by (simp only: sum_list_upt_conv)
    then show "sum_list (map val (b ! r)) = (\<Sum>c<length b. val (b ! r ! c))" by (simp add: len)
  qed simp
  finally show ?thesis .
qed

lemma vals_sum_tr:
  assumes "square b"
  shows "vals_sum (tr b) = vals_sum b"
proof -
  have "vals_sum (tr b) = (\<Sum>c<length b. \<Sum>r<length b. val (b ! r ! c))"
    by (simp add: vals_sum_def tr_def comp_def sum_list_upt_conv)
  also have "\<dots> = (\<Sum>r<length b. \<Sum>c<length b. val (b ! r ! c))"
    by (rule sum.swap)
  finally show ?thesis using vals_sum_square [OF assms] by simp
qed

lemma vals_sum_lines_of: "square b \<Longrightarrow> vals_sum (lines_of d b) = vals_sum b"
  by (cases d) (simp_all add: lines_of_def vals_sum_reverseRows vals_sum_tr)

lemma vals_sum_unlines: "square b \<Longrightarrow> vals_sum (unlines d b) = vals_sum b"
  by (cases d)
     (simp_all add: unlines_def vals_sum_reverseRows vals_sum_tr square_reverseRows)

lemma vals_sum_line_result:
  "list_all (list_all doubles_exactly) ls \<Longrightarrow> vals_sum (map line_result ls) = vals_sum ls"
  by (induction ls) (simp_all add: vals_sum_def line_result_vals(2))

lemma fin_mapped: "xs = map Fin (map val xs) \<Longrightarrow> list_all (\<lambda>x. x = Fin (val x)) xs"
  by (induction xs) simp_all

lemma fin_line_result:
  "list_all (list_all doubles_exactly) ls \<Longrightarrow>
     list_all (list_all (\<lambda>x. x = Fin (val x))) (map line_result ls)"
proof (induction ls)
  case (Cons l ls)
  then have "line_result l = map Fin (map val (line_result l))"
    by (intro line_result_vals(1)) simp
  then have "list_all (\<lambda>x. x = Fin (val x)) (line_result l)"
    by (rule fin_mapped)
  with Cons show ?case by simp
qed simp

lemma board_sum_fin:
  assumes "list_all (list_all (\<lambda>x. x = Fin (val x))) b"
  shows "board_sum b = Num (Fin (vals_sum b))"
proof -
  have "foldr (\<lambda>v s. exact_plus (Num v) s) xs (Num (Fin 0)) = Num (Fin (sum_list (map val xs)))"
    if "list_all (\<lambda>x. x = Fin (val x)) xs" for xs
    using that
  proof (induction xs)
    case (Cons x xs)
    then have "x = Fin (val x)" by simp
    then obtain a where "x = Fin a" ..
    with Cons show ?case by simp
  qed simp
  moreover have "list_all (\<lambda>x. x = Fin (val x)) (concat b)"
    using assms by (induction b) simp_all
  moreover have "sum_list (map val (concat b)) = vals_sum b"
    by (induction b) (simp_all add: vals_sum_def)
  ultimately show ?thesis by (simp add: board_sum_def)
qed

lemma exact_cells_fin:
  "list_all (list_all doubles_exactly) b \<Longrightarrow> list_all (list_all (\<lambda>x. x = Fin (val x))) b"
  unfolding list_all_iff using exact_is_fin by blast

lemma move_exact:
  assumes sq: "square b" and ex: "cells_double_exactly b"
  shows "list_all (list_all (\<lambda>x. x = Fin (val x))) (unlines d (map line_result (lines_of d b)))"
    and "vals_sum (unlines d (map line_result (lines_of d b))) = vals_sum b"
proof -
  let ?L = "lines_of d b"
  let ?R = "map line_result ?L"
  have L: "list_all (list_all doubles_exactly) ?L"
    using sq ex unfolding cells_double_exactly_def by (rule cells_lines_of)
  have sqR: "square ?R" using sq by (simp add: square_map_line_result square_lines_of)
  have finR: "list_all (list_all (\<lambda>x. x = Fin (val x))) ?R" using L by (rule fin_line_result)
  show "list_all (list_all (\<lambda>x. x = Fin (val x))) (unlines d ?R)"
    using sqR finR by (rule cells_unlines)
  have "vals_sum (unlines d ?R) = vals_sum ?R" using sqR by (rule vals_sum_unlines)
  also have "\<dots> = vals_sum ?L" using L by (rule vals_sum_line_result)
  also have "\<dots> = vals_sum b" using sq by (rule vals_sum_lines_of)
  finally show "vals_sum (unlines d ?R) = vals_sum b" .
qed

lemma board_sum_move:
  assumes sq: "square b" and ex: "cells_double_exactly b"
  shows "board_sum (unlines d (map line_result (lines_of d b))) = Num (Fin (vals_sum b))"
    and "board_sum b = Num (Fin (vals_sum b))"
proof -
  show "board_sum (unlines d (map line_result (lines_of d b))) = Num (Fin (vals_sum b))"
    using move_exact [OF sq ex, of d] by (simp add: board_sum_fin)
  show "board_sum b = Num (Fin (vals_sum b))"
    using ex unfolding cells_double_exactly_def by (intro board_sum_fin exact_cells_fin)
qed

lemma exact_plus_fin_eq: "exact_plus (Num (Fin s)) g = Num (Fin s) \<longleftrightarrow> g = Num (Fin 0)"
proof (cases g)
  case (Num v)
  then show ?thesis by (cases v) simp_all
qed simp

text \<open>
  C10, as stated: for every square board the tiles of the board returned by \<open>move\<close> add
  up to the sum of the tiles of the input. Two tiles \<open>2^1023\<close> merge into \<open>Infinity\<close>:
  the sum of the input is \<open>2^1024\<close>, the sum of the result is infinite.
\<close>

theorem tile_sum_overflow_counterexample:
  "square [[Fin (2 ^ 1023), Fin (2 ^ 1023)], [Fin 0, Fin 0]] \<and>
   move [[Fin (2 ^ 1023), Fin (2 ^ 1023)], [Fin 0, Fin 0]] Left
     = Some \<lparr>board = [[PInf, Fin 0], [Fin 0, Fin 0]], gained = Num PInf, moved = True\<rparr> \<and>
   board_sum [[Fin (2 ^ 1023), Fin (2 ^ 1023)], [Fin 0, Fin 0]] = Num (Fin (2 ^ 1024)) \<and>
   board_sum [[PInf, Fin 0], [Fin 0, Fin 0]] = Num PInf"
  by code_simp

text \<open>
  C10, amended: for every square board whose cells are integer doubles of magnitude below
  \<open>2^1023\<close> and every direction, the tiles of the board returned by \<open>move\<close> add up to
  exactly the sum of the tiles of the input board.
\<close>

theorem move_conserves_tile_sum:
  assumes "square b" and "cells_double_exactly b"
  shows "\<exists>res. move b d = Some res \<and> board_sum (board res) = board_sum b"
  using move_square [OF assms(1), of d] board_sum_move(1) [OF assms, of d] board_sum_move(2) [OF assms] by simp

theorem move_conserves_tile_sum_witness:
  "square [[Fin 2, Fin 2], [Fin 4, Fin 4]] \<and>
   cells_double_exactly [[Fin 2, Fin 2], [Fin 4, Fin 4]] \<and>
   (\<exists>res. move [[Fin 2, Fin 2], [Fin 4, Fin 4]] Right = Some res \<and>
          board res = [[Fin 0, Fin 4], [Fin 0, Fin 8]] \<and>
          board_sum (board res) = Num (Fin 12) \<and>
          board_sum [[Fin 2, Fin 2], [Fin 4, Fin 4]] = Num (Fin 12))"
proof -
  let ?b = "[[Fin 2, Fin 2], [Fin 4, Fin 4]]"
  have sq: "square ?b" by code_simp
  have ex: "cells_double_exactly ?b" by code_simp
  have ev: "move ?b Right
              = Some \<lparr>board = [[Fin 0, Fin 4], [Fin 0, Fin 8]], gained = Num (Fin 12),
                      moved = True\<rparr>"
    by code_simp
  have s: "board_sum ?b = Num (Fin 12)" by code_simp
  from move_conserves_tile_sum [OF sq ex, of Right] obtain res
    where r: "move ?b Right = Some res"
      and e: "board_sum (board res) = board_sum ?b"
    by blast
  from r ev have "res = \<lparr>board = [[Fin 0, Fin 4], [Fin 0, Fin 8]], gained = Num (Fin 12),
                          moved = True\<rparr>" by simp
  then have "board res = [[Fin 0, Fin 4], [Fin 0, Fin 8]]" by simp
  with r e s sq ex show ?thesis by simp
qed

text \<open>
  C3, as stated: the sum of the tiles after a move is the sum before plus \<open>gained\<close>.
  This fails as soon as a merge happens: merging \<open>2\<close> and \<open>2\<close> leaves the sum at 4
  while \<open>gained\<close> is 4.
\<close>

theorem sum_plus_gained_counterexample:
  "square [[Fin 2, Fin 2], [Fin 0, Fin 0]] \<and>
   move [[Fin 2, Fin 2], [Fin 0, Fin 0]] Left
     = Some \<lparr>board = [[Fin 4, Fin 0], [Fin 0, Fin 0]], gained = Num (Fin 4), moved = True\<rparr> \<and>
   board_sum [[Fin 4, Fin 0], [Fin 0, Fin 0]] = Num (Fin 4) \<and>
   exact_plus (board_sum [[Fin 2, Fin 2], [Fin 0, Fin 0]]) (Num (Fin 4)) = Num (Fin 8)"
  by code_simp

text \<open>
  C3, amended: for every square board whose cells are integer doubles of magnitude below
  \<open>2^1023\<close> and every direction, the sum of the tiles after the move equals the sum before
  plus \<open>gained\<close> exactly when \<open>gained\<close> is 0; the tile sum itself does not change.
\<close>

theorem sum_plus_gained_iff:
  assumes "square b" and "cells_double_exactly b"
  shows "\<exists>res. move b d = Some res \<and>
           (board_sum (board res) = exact_plus (board_sum b) (gained res)
              \<longleftrightarrow> gained res = Num (Fin 0))"
  using move_square [OF assms(1), of d] board_sum_move(1) [OF assms, of d] board_sum_move(2) [OF assms]
  by (simp add: exact_plus_fin_eq eq_commute [of "Num (Fin (vals_sum b))"])

theorem sum_plus_gained_iff_witness:
  "square [[Fin 2, Fin 2], [Fin 0, Fin 0]] \<and>
   cells_double_exactly [[Fin 2, Fin 2], [Fin 0, Fin 0]] \<and>
   (\<exists>res. move [[Fin 2, Fin 2], [Fin 0, Fin 0]] Left = Some res \<and> gained res = Num (Fin 4) \<and>
          board_sum (board res)
            \<noteq> exact_plus (board_sum [[Fin 2, Fin 2], [Fin 0, Fin 0]]) (gained res))"
proof -
  let ?b = "[[Fin 2, Fin 2], [Fin 0, Fin 0]]"
  have sq: "square ?b" by code_simp
  have ex: "cells_double_exactly ?b" by code_simp
  have ev: "move ?b Left
              = Some \<lparr>board = [[Fin 4, Fin 0], [Fin 0, Fin 0]], gained = Num (Fin 4),
                      moved = True\<rparr>"
    by code_simp
  from sum_plus_gained_iff [OF sq ex, of Left] obtain res
    where r: "move ?b Left = Some res"
      and e: "board_sum (board res) = exact_plus (board_sum ?b) (gained res)
                \<longleftrightarrow> gained res = Num (Fin 0)"
    by blast
  from r ev have "res = \<lparr>board = [[Fin 4, Fin 0], [Fin 0, Fin 0]], gained = Num (Fin 4),
                          moved = True\<rparr>" by simp
  then have "gained res = Num (Fin 4)" by simp
  with r e sq ex show ?thesis by auto
qed

section \<open>Directional symmetry, the win test and spawning on a full board\<close>

lemma transpose_move_left:
  "Option.bind (Option.bind (transpose_board b) (\<lambda>t. move t Left))
               (\<lambda>res. transpose_board (board res))
     = map_option board (move b Up)"
  by (cases "transpose_board b")
     (auto simp: move_Left move_def cloneBoard_id process_rows_eq Let_def
           split: option.splits)

text \<open>
  C6: transposing, moving left and transposing back gives the board of moving up;
  on a square board none of the three steps fails.
\<close>

theorem up_is_left_under_transpose:
  "Option.bind (Option.bind (transpose_board b) (\<lambda>t. move t Left))
               (\<lambda>res. transpose_board (board res))
     = map_option board (move b Up)
   \<and> (square b \<longrightarrow> move b Up \<noteq> None)"
  using transpose_move_left [of b] move_square [of b Up] by auto

theorem up_is_left_under_transpose_witness:
  "square [[Fin 2, Fin 0], [Fin 2, Fin 4]] \<and>
   Option.bind (Option.bind (transpose_board [[Fin 2, Fin 0], [Fin 2, Fin 4]])
                            (\<lambda>t. move t Left))
               (\<lambda>res. transpose_board (board res)) = Some [[Fin 4, Fin 4], [Fin 0, Fin 0]] \<and>
   map_option board (move [[Fin 2, Fin 0], [Fin 2, Fin 4]] Up)
     = Some [[Fin 4, Fin 4], [Fin 0, Fin 0]]"
proof -
  have sq: "square [[Fin 2, Fin 0], [Fin 2, Fin 4]]" by code_simp
  have ev: "map_option board (move [[Fin 2, Fin 0], [Fin 2, Fin 4]] Up)
              = Some [[Fin 4, Fin 4], [Fin 0, Fin 0]]"
    by code_simp
  from up_is_left_under_transpose [of "[[Fin 2, Fin 0], [Fin 2, Fin 4]]"] sq ev show ?thesis
    by simp
qed

text \<open>
  C7: \<open>has2048\<close> holds exactly when some cell is at least 2048; a cell of 4096
  satisfies it, a board whose largest cell is 1024 does not.
\<close>

theorem has2048_iff:
  "(has2048 b \<longleftrightarrow> (\<exists>r c v. cell b r c = Some v \<and> js_ge v 2048))
   \<and> has2048 [[Fin 2, Fin 4096], [Fin 0, Fin 8]] \<and> has2048 [[Fin 2048]]
   \<and> \<not> has2048 [[Fin 2, Fin 1024], [Fin 512, Fin 0]]"
proof -
  have "has2048 b \<longleftrightarrow> (\<exists>row \<in> set b. \<exists>v \<in> set row. js_ge v 2048)"
    by (simp add: has2048_def list_ex_iff)
  also have "\<dots> \<longleftrightarrow> (\<exists>r c v. cell b r c = Some v \<and> js_ge v 2048)"
  proof
    assume "\<exists>row \<in> set b. \<exists>v \<in> set row. js_ge v 2048"
    then obtain r c where "r < length b" "c < length (b ! r)" "js_ge (b ! r ! c) 2048"
      by (metis in_set_conv_nth)
    then have "cell b r c = Some (b ! r ! c) \<and> js_ge (b ! r ! c) 2048"
      by (simp add: cell_def)
    then show "\<exists>r c v. cell b r c = Some v \<and> js_ge v 2048" by blast
  next
    assume "\<exists>r c v. cell b r c = Some v \<and> js_ge v 2048"
    then obtain r c v where "cell b r c = Some v" "js_ge v 2048" by blast
    then have "r < length b" "c < length (b ! r)" "js_ge (b ! r ! c) 2048"
      by (auto simp: cell_def split: if_splits)
    then have "b ! r \<in> set b" "b ! r ! c \<in> set (b ! r)" "js_ge (b ! r ! c) 2048"
      by simp_all
    then show "\<exists>row \<in> set b. \<exists>v \<in> set row. js_ge v 2048" by blast
  qed
  finally have "has2048 b \<longleftrightarrow> (\<exists>r c v. cell b r c = Some v \<and> js_ge v 2048)" .
  moreover have "has2048 [[Fin 2, Fin 4096], [Fin 0, Fin 8]]" by code_simp
  moreover have "has2048 [[Fin 2048]]" by code_simp
  moreover have "\<not> has2048 [[Fin 2, Fin 1024], [Fin 512, Fin 0]]" by code_simp
  ultimately show ?thesis by blast
qed

lemma getEmptyCells_Nil:
  assumes "\<forall>row \<in> set b. Fin 0 \<notin> set row"
  shows "getEmptyCells b = []"
proof -
  have "filter (\<lambda>c. b ! r ! c = Fin 0) [0..<length (b ! r)] = []" if "r < length b" for r
  proof -
    from that have "b ! r \<in> set b" by simp
    with assms have "Fin 0 \<notin> set (b ! r)" by blast
    then show ?thesis by (auto simp: filter_empty_conv in_set_conv_nth)
  qed
  then show ?thesis by (simp add: getEmptyCells_def)
qed

text \<open>
  C8: on a board without an empty cell \<open>spawnRandomTile\<close> returns the board it was
  given, as a normal result and without calling the random source.
\<close>

theorem spawn_full_board_noop:
  assumes "\<forall>row \<in> set b. Fin 0 \<notin> set row"
  shows "spawnRandomTile b rng s = Inr (b, s)"
  using getEmptyCells_Nil [OF assms] by (simp add: spawnRandomTile_def)

theorem spawn_full_board_noop_witness:
  "spawnRandomTile [[Fin 2, Fin 4], [Fin 8, Fin 2]] (\<lambda>s :: nat. (1 / 2, s + 1)) 0
     = Inr ([[Fin 2, Fin 4], [Fin 8, Fin 2]], 0)"
proof -
  have h: "\<forall>row \<in> set [[Fin 2, Fin 4], [Fin 8, Fin 2]]. Fin 0 \<notin> set row" by simp
  show ?thesis by (rule spawn_full_board_noop [OF h])
qed

section \<open>Every tile merges at most once\<close>

lemma blocks_of_shape_all:
  "\<forall>bl \<in> set (blocks_of xs). \<exists>x. bl = [x] \<or> bl = [x, x]"
proof
  fix bl assume "bl \<in> set (blocks_of xs)"
  from blocks_of_shape [OF this] show "\<exists>x. bl = [x] \<or> bl = [x, x]" by blast
qed

lemma block_value_shape: "bl = [x] \<or> bl = [x, x] \<Longrightarrow> block_value bl = Num (block_cell bl)"
proof (erule disjE)
  assume "bl = [x]" then show ?thesis by simp
next
  assume "bl = [x, x]" then show ?thesis by (simp only: block_value.simps block_cell.simps js_plus_same)
qed

lemma block_value_cell:
  assumes "bl \<in> set (blocks_of xs)"
  shows "block_value bl = Num (block_cell bl)"
proof -
  from blocks_of_shape [OF assms] obtain x where "bl = [x] \<or> bl = [x, x]" by blast
  then show ?thesis by (rule block_value_shape)
qed

lemma line_result_blocks:
  "\<exists>blocks. concat blocks = filter (\<lambda>v. v \<noteq> Fin 0) l \<and>
            (\<forall>bl \<in> set blocks. \<exists>x. bl = [x] \<or> bl = [x, x]) \<and>
            map Num (line_result l)
              = map block_value blocks @ replicate (length l - length blocks) (Num (Fin 0))"
proof -
  let ?bs = "blocks_of (filter (\<lambda>v. v \<noteq> Fin 0) l)"
  have "map block_value ?bs = map (\<lambda>bl. Num (block_cell bl)) ?bs"
    by (rule map_cong [OF refl]) (rule block_value_cell)
  then have "map Num (line_result l)
               = map block_value ?bs @ replicate (length l - length ?bs) (Num (Fin 0))"
    by (simp add: line_result_def comp_def)
  moreover have "concat ?bs = filter (\<lambda>v. v \<noteq> Fin 0) l" by (rule concat_blocks_of)
  moreover have "\<forall>bl \<in> set ?bs. \<exists>x. bl = [x] \<or> bl = [x, x]" by (rule blocks_of_shape_all)
  ultimately show ?thesis by blast
qed

text \<open>
  C4: every line of the board returned by \<open>move\<close> (read in the direction of travel)
  is obtained from the compacted input line by cutting it into blocks of one tile or of
  two equal tiles and replacing each block by its value (the tile, or the sum of the two
  tiles as the source adds them), then padding with zeros. So a tile of the result is
  made of at most two tiles of the input: a merged tile never merges again. On the first
  row \<open>[2,0,2,2]\<close>, moving left gives \<open>[4,2,0,0]\<close> and gains 4.
\<close>

theorem merge_once:
  "(square b \<longrightarrow>
      (\<exists>res. move b d = Some res \<and> length (lines_of d (board res)) = length b \<and>
         (\<forall>i < length b. \<exists>blocks.
             concat blocks = filter (\<lambda>v. v \<noteq> Fin 0) (lines_of d b ! i) \<and>
             (\<forall>bl \<in> set blocks. \<exists>x. bl = [x] \<or> bl = [x, x]) \<and>
             map Num (lines_of d (board res) ! i)
               = map block_value blocks @ replicate (length b - length blocks) (Num (Fin 0)))))
   \<and> move [[Fin 2, Fin 0, Fin 2, Fin 2], [Fin 0, Fin 0, Fin 0, Fin 0],
            [Fin 0, Fin 0, Fin 0, Fin 0], [Fin 0, Fin 0, Fin 0, Fin 0]] Left
       = Some \<lparr>board = [[Fin 4, Fin 2, Fin 0, Fin 0], [Fin 0, Fin 0, Fin 0, Fin 0],
                        [Fin 0, Fin 0, Fin 0, Fin 0], [Fin 0, Fin 0, Fin 0, Fin 0]],
               gained = Num (Fin 4), moved = True\<rparr>"
proof (intro conjI impI)
  assume sq: "square b"
  let ?ls = "lines_of d b"
  let ?res = "\<lparr>board = unlines d (map line_result ?ls),
               gained = total_gain ?ls (Num (Fin 0)),
               moved = list_ex line_moved ?ls\<rparr>"
  have m: "move b d = Some ?res" using sq by (rule move_square)
  have sq': "square (map line_result ?ls)"
    using sq by (simp add: square_map_line_result square_lines_of)
  have lb: "lines_of d (board ?res) = map line_result ?ls"
    using lines_of_unlines [OF sq', of d] by simp
  have len: "length (lines_of d (board ?res)) = length b"
    unfolding lb by (simp add: length_lines_of)
  have "\<exists>blocks. concat blocks = filter (\<lambda>v. v \<noteq> Fin 0) (?ls ! i) \<and>
            (\<forall>bl \<in> set blocks. \<exists>x. bl = [x] \<or> bl = [x, x]) \<and>
            map Num (lines_of d (board ?res) ! i)
              = map block_value blocks @ replicate (length b - length blocks) (Num (Fin 0))"
    if i: "i < length b" for i
  proof -
    from i have i': "i < length ?ls" by (simp add: length_lines_of)
    have "length (?ls ! i) = length ?ls"
      using square_lines_of [OF sq, of d] i' by (rule square_nth)
    then have ll: "length (?ls ! i) = length b" by (simp add: length_lines_of)
    have "lines_of d (board ?res) ! i = line_result (?ls ! i)"
      unfolding lb using i' by simp
    then show ?thesis using line_result_blocks [of "?ls ! i"] ll by simp
  qed
  with m len show "\<exists>res. move b d = Some res \<and> length (lines_of d (board res)) = length b \<and>
         (\<forall>i < length b. \<exists>blocks.
             concat blocks = filter (\<lambda>v. v \<noteq> Fin 0) (lines_of d b ! i) \<and>
             (\<forall>bl \<in> set blocks. \<exists>x. bl = [x] \<or> bl = [x, x]) \<and>
             map Num (lines_of d (board res) ! i)
               = map block_value blocks @ replicate (length b - length blocks) (Num (Fin 0)))"
    by blast
next
  show "move [[Fin 2, Fin 0, Fin 2, Fin 2], [Fin 0, Fin 0, Fin 0, Fin 0],
            [Fin 0, Fin 0, Fin 0, Fin 0], [Fin 0, Fin 0, Fin 0, Fin 0]] Left
       = Some \<lparr>board = [[Fin 4, Fin 2, Fin 0, Fin 0], [Fin 0, Fin 0, Fin 0, Fin 0],
                        [Fin 0, Fin 0, Fin 0, Fin 0], [Fin 0, Fin 0, Fin 0, Fin 0]],
               gained = Num (Fin 4), moved = True\<rparr>"
    by code_simp
qed

theorem merge_once_witness:
  "square [[Fin 2, Fin 2, Fin 4], [Fin 0, Fin 0, Fin 0], [Fin 0, Fin 0, Fin 0]] \<and>
   (\<exists>res. move [[Fin 2, Fin 2, Fin 4], [Fin 0, Fin 0, Fin 0], [Fin 0, Fin 0, Fin 0]] Left
             = Some res \<and>
      board res = [[Fin 4, Fin 4, Fin 0], [Fin 0, Fin 0, Fin 0], [Fin 0, Fin 0, Fin 0]] \<and>
      (\<exists>blocks. concat blocks = [Fin 2, Fin 2, Fin 4] \<and>
         (\<forall>bl \<in> set blocks. \<exists>x. bl = [x] \<or> bl = [x, x]) \<and>
         [Num (Fin 4), Num (Fin 4), Num (Fin 0)]
           = map block_value blocks @ replicate (3 - length blocks) (Num (Fin 0))))"
proof -
  let ?b = "[[Fin 2, Fin 2, Fin 4], [Fin 0, Fin 0, Fin 0], [Fin 0, Fin 0, Fin 0]]"
  have sq: "square ?b" by code_simp
  have ev: "move ?b Left
              = Some \<lparr>board = [[Fin 4, Fin 4, Fin 0], [Fin 0, Fin 0, Fin 0], [Fin 0, Fin 0, Fin 0]],
                      gained = Num (Fin 4), moved = True\<rparr>"
    by code_simp
  from merge_once [of ?b Left] sq obtain res where r: "move ?b Left = Some res"
    and a: "\<forall>i < length ?b. \<exists>blocks.
             concat blocks = filter (\<lambda>v. v \<noteq> Fin 0) (lines_of Left ?b ! i) \<and>
             (\<forall>bl \<in> set blocks. \<exists>x. bl = [x] \<or> bl = [x, x]) \<and>
             map Num (lines_of Left (board res) ! i)
               = map block_value blocks @ replicate (length ?b - length blocks) (Num (Fin 0))"
    by blast
  from r ev have res: "res = \<lparr>board = [[Fin 4, Fin 4, Fin 0], [Fin 0, Fin 0, Fin 0],
                                         [Fin 0, Fin 0, Fin 0]],
                                 gained = Num (Fin 4), moved = True\<rparr>" by simp
  have "(0::nat) < length ?b" by simp
  with a have "\<exists>blocks.
             concat blocks = filter (\<lambda>v. v \<noteq> Fin 0) (lines_of Left ?b ! 0) \<and>
             (\<forall>bl \<in> set blocks. \<exists>x. bl = [x] \<or> bl = [x, x]) \<and>
             map Num (lines_of Left (board res) ! 0)
               = map block_value blocks @ replicate (length ?b - length blocks) (Num (Fin 0))"
    by blast
  then have "\<exists>blocks. concat blocks = [Fin 2, Fin 2, Fin 4] \<and>
         (\<forall>bl \<in> set blocks. \<exists>x. bl = [x] \<or> bl = [x, x]) \<and>
         [Num (Fin 4), Num (Fin 4), Num (Fin 0)]
           = map block_value blocks @ replicate (3 - length blocks) (Num (Fin 0))"
    by (simp add: res lines_of_def eval_nat_numeral)
  with sq r res show ?thesis by simp
qed

section \<open>The seeded generator against the formula\<close>

lemma W_ToUint32: "W (ToUint32 x) = W x"
  by (simp add: ToUint32_def word_of_int_eq_iff take_bit_eq_mod)

lemma ToInt32_mod: "ToInt32 x mod 2 ^ 32 = x mod 2 ^ 32"
  by (simp add: ToInt32_def Let_def)

lemma W_ToInt32: "W (ToInt32 x) = W x"
  using ToInt32_mod [of x] by (simp add: word_of_int_eq_iff take_bit_eq_mod)

lemma ToUint32_uint: "ToUint32 x = uint (W x)"
  by (simp add: ToUint32_def uint_word_of_int)

lemma ToInt32_bounds: "- (2 ^ 31) \<le> ToInt32 x \<and> ToInt32 x < 2 ^ 31"
proof -
  have "0 \<le> x mod 2 ^ 32" "x mod 2 ^ 32 < 2 ^ 32" by simp_all
  then show ?thesis by (auto simp: ToInt32_def Let_def)
qed

lemma W_js_xor: "W (js_xor a b) = W a XOR W b"
  by (simp add: js_xor_def of_int_xor_eq W_ToInt32)

lemma W_js_or: "W (js_or a b) = W a OR W b"
  by (simp add: js_or_def of_int_or_eq W_ToInt32)

lemma W_imul: "W (imul a b) = W a * W b"
  by (simp add: imul_def W_ToInt32 W_ToUint32)

lemma uint_drop_bit32: "uint (drop_bit k (w :: 32 word)) = drop_bit k (uint w)"
proof -
  have "take_bit 32 (uint w) = uint (take_bit 32 w)"
    by (simp only: unsigned_take_bit_eq)
  also have "take_bit 32 w = w"
    using take_bit_length_eq [of w] by simp
  finally show ?thesis by (simp add: unsigned_drop_bit_eq)
qed

lemma W_js_ushr: "k < 32 \<Longrightarrow> W (js_ushr a k) = drop_bit k (W a)"
proof -
  assume "k < 32"
  then have "js_ushr a k = drop_bit k (uint (W a))"
    by (simp add: js_ushr_def ToUint32_uint drop_bit_eq_div)
  also have "\<dots> = uint (drop_bit k (W a))"
    by (simp add: uint_drop_bit32)
  finally show ?thesis by simp
qed

lemma js_ushr_0: "js_ushr a 0 = uint (W a)"
  by (simp add: js_ushr_def ToUint32_uint)

lemma js_add_exact: "\<bar>a + b\<bar> < 2 ^ 53 \<Longrightarrow> js_add a b = a + b"
  by (simp add: js_add_def double_round_def Let_def)

lemma imul_bounds: "- (2 ^ 31) \<le> imul a b \<and> imul a b < 2 ^ 31"
  unfolding imul_def by (rule ToInt32_bounds)

lemma js_add_imul: "js_add (imul a b) (imul c d) = imul a b + imul c d"
proof (rule js_add_exact)
  from imul_bounds [of a b] imul_bounds [of c d]
  show "\<bar>imul a b + imul c d\<bar> < 2 ^ 53" by simp linarith
qed

lemma mix2_word: "W (imul (js_xor t (js_ushr t 15)) (js_or 1 t)) = spec_step2 (W t)"
  by (simp add: W_imul W_js_xor W_js_or W_js_ushr spec_step2_def or.commute)

lemma mix3_word:
  "W (js_xor (js_add (imul p q) (imul (js_xor (imul p q) (js_ushr (imul p q) 7))
                                      (js_or 61 (imul p q)))) (imul p q))
     = step3_add (W (imul p q))"
  unfolding js_add_imul
  by (simp add: W_imul W_js_xor W_js_or W_js_ushr step3_add_def or.commute)

lemma out_word:
  "real_of_int (js_ushr (js_xor r (js_ushr r 14)) 0) / 4294967296 = spec_step4 (W r)"
  unfolding js_ushr_0 by (simp add: W_js_xor W_js_ushr spec_step4_def)

lemma seeded_rng_word:
  assumes "0 \<le> t0" and "t0 + 0x6d2b79f5 < 2 ^ 53"
  shows "seeded_rng t0 =
           (spec_step4 (step3_add (spec_step2 (W (t0 + 0x6d2b79f5)))), t0 + 0x6d2b79f5)"
proof -
  have t: "js_add t0 0x6d2b79f5 = t0 + 0x6d2b79f5"
    using assms by (intro js_add_exact) simp
  show ?thesis
    unfolding seeded_rng_def t Let_def out_word mix3_word mix2_word by (rule refl)
qed

lemma rng_calls_exact:
  "0 \<le> t0 \<Longrightarrow> t0 + int k * 0x6d2b79f5 < 2 ^ 53 \<Longrightarrow>
     rng_calls k t0 = t0 + int k * 0x6d2b79f5"
proof (induction k arbitrary: t0)
  case 0
  then show ?case by simp
next
  case (Suc k)
  have small: "t0 + 0x6d2b79f5 < 2 ^ 53" using Suc.prems by simp
  have "rng_calls (Suc k) t0 = rng_calls k (t0 + 0x6d2b79f5)"
    using Suc.prems(1) small by (simp add: seeded_rng_word)
  also have "\<dots> = (t0 + 0x6d2b79f5) + int k * 0x6d2b79f5"
    using Suc.prems by (intro Suc.IH) (simp_all add: algebra_simps)
  finally show ?case by (simp add: algebra_simps)
qed

lemma spec_step1_funpow: "(spec_step1 ^^ k) w = w + of_nat k * 0x6D2B79F5"
  by (induction k) (simp_all add: spec_step1_def algebra_simps)

lemma createSeededRng_eq: "createSeededRng seed = seed mod 2 ^ 32"
  by (simp add: createSeededRng_def js_ushr_def ToUint32_def)

lemma spec_step4_range: "0 \<le> spec_step4 r \<and> spec_step4 r < 1"
proof -
  let ?n = "unat (r XOR drop_bit 14 r)"
  have "?n < 2 ^ 32"
    using unsigned_less [of "r XOR drop_bit 14 r", where 'a = nat] by simp
  then have lt: "real ?n < 2 ^ 32"
    by (metis of_nat_less_iff of_nat_numeral of_nat_power)
  have ge: "0 \<le> real ?n" by (rule of_nat_0_le_iff)
  have "0 \<le> real ?n / 2 ^ 32"
    using ge by (rule divide_nonneg_nonneg) (rule zero_le_power, rule zero_le_numeral)
  moreover have "real ?n / 2 ^ 32 < 1"
    using lt by (subst divide_less_eq_1_pos) (rule zero_less_power, rule zero_less_numeral)
  ultimately show ?thesis unfolding spec_step4_def by (rule conjI)
qed

lemma nth_output_word:
  assumes "seed mod 2 ^ 32 + (int k + 1) * 0x6d2b79f5 < 2 ^ 53"
  shows "nth_output seed k = formula_output seed k"
proof -
  let ?c = "0x6d2b79f5 :: int"
  let ?s = "seed mod 2 ^ 32"
  have s0: "0 \<le> ?s" by simp
  have k: "?s + int k * ?c < 2 ^ 53" using assms by (simp add: algebra_simps)
  have st: "rng_calls k (createSeededRng seed) = ?s + int k * ?c"
    unfolding createSeededRng_eq using s0 k by (rule rng_calls_exact)
  have nn: "0 \<le> ?s + int k * ?c" using s0 by simp
  have nx: "?s + int k * ?c + ?c < 2 ^ 53" using assms by (simp add: algebra_simps)
  have w: "W (?s + int k * ?c + ?c) = (spec_step1 ^^ Suc k) (W seed)"
  proof -
    have "W ?s = W seed"
      using W_ToUint32 [of seed] by (simp add: ToUint32_def)
    then show ?thesis
      by (simp add: spec_step1_funpow spec_step1_def algebra_simps)
  qed
  have "nth_output seed k = fst (seeded_rng (?s + int k * ?c))"
    by (simp only: nth_output_def st)
  also have "\<dots> = spec_step4 (step3_add (spec_step2 (W (?s + int k * ?c + ?c))))"
    using seeded_rng_word [OF nn nx] by simp
  finally show ?thesis by (simp only: w formula_output_def)
qed

lemma seeded_rng_stages:
  "js_add t0 0x6d2b79f5 = t \<Longrightarrow>
   imul (js_xor t (js_ushr t 15)) (js_or 1 t) = r1 \<Longrightarrow>
   js_xor (js_add r1 (imul (js_xor r1 (js_ushr r1 7)) (js_or 61 r1))) r1 = r2 \<Longrightarrow>
   js_ushr (js_xor r2 (js_ushr r2 14)) 0 = n \<Longrightarrow>
   seeded_rng t0 = (real_of_int n / 4294967296, t)"
  by (simp add: seeded_rng_def Let_def)

lemmas js_defs = js_add_def double_round_def imul_def js_xor_def js_or_def js_ushr_def
  ToInt32_def ToUint32_def

lemma seeded_rng_0: "seeded_rng 0 = (1144304738 / 4294967296, 1831565813)"
proof -
  have a: "js_add 0 0x6d2b79f5 = 1831565813" by (simp add: js_defs)
  have b: "imul (js_xor 1831565813 (js_ushr 1831565813 15)) (js_or 1 1831565813) = - 25385473"
    by (simp add: js_defs)
  have c: "js_xor (js_add (- 25385473) (imul (js_xor (- 25385473) (js_ushr (- 25385473) 7))
                    (js_or 61 (- 25385473)))) (- 25385473) = 1144366260"
    by (simp add: js_defs)
  have d: "js_ushr (js_xor 1144366260 (js_ushr 1144366260 14)) 0 = 1144304738"
    by (simp add: js_defs)
  show ?thesis using seeded_rng_stages [OF a b c d] by simp
qed

lemma spec_output_0: "spec_output 0 0 = 3150886013 / 4294967296"
proof -
  have a: "(spec_step1 ^^ Suc 0) (word_of_int 0) = 1831565813"
    by (simp add: spec_step1_def)
  have b: "spec_step2 1831565813 = 4269581823" by (simp add: spec_step2_def)
  have c: "spec_step3 4269581823 = 3150732108" by (simp add: spec_step3_def)
  have d: "spec_step4 3150732108 = 3150886013 / 4294967296" by (simp add: spec_step4_def)
  show ?thesis unfolding spec_output_def a b c d by (rule refl)
qed

lemma formula_output_42_1: "formula_output 42 1 = 1925393290 / 4294967296"
proof -
  have a: "(spec_step1 ^^ Suc 1) (word_of_int 42) = 3663131668"
    by (simp add: spec_step1_def)
  have b: "spec_step2 3663131668 = 1526637357" by (simp add: spec_step2_def)
  have c: "step3_add 1526637357 = 1925374081" by (simp add: step3_add_def)
  have d: "spec_step4 1925374081 = 1925393290 / 4294967296" by (simp add: spec_step4_def)
  show ?thesis unfolding formula_output_def a b c d by (rule refl)
qed

text \<open>
  C5, as stated: every output of the generator is the value of the four-step formula of
  the specification, whose step 3 is \<open>r = (r xor ((r xor (r>>7)) * (r | 61))) xor r\<close>.
  The first output for seed 0 is \<open>1144304738 / 2^32\<close>; the formula gives
  \<open>3150886013 / 2^32\<close>.
\<close>

theorem seeded_rng_spec_formula_counterexample:
  "nth_output 0 0 = 1144304738 / 4294967296 \<and>
   spec_output 0 0 = 3150886013 / 4294967296 \<and>
   nth_output 0 0 \<noteq> spec_output 0 0"
proof -
  have "createSeededRng 0 = 0" by (simp add: createSeededRng_eq)
  then have "nth_output 0 0 = 1144304738 / 4294967296"
    by (simp add: nth_output_def seeded_rng_0)
  then show ?thesis by (simp add: spec_output_0)
qed

text \<open>
  C5, amended: with step 3 read as \<open>r = (r + (r xor (r>>7)) * (r | 61)) xor r\<close>, the
  output of call number \<open>k\<close> is the value of the formula in unsigned 32-bit arithmetic,
  and lies in \<open>[0, 1)\<close>, for every integer seed and every call whose state
  \<open>seed mod 2^32 + (k + 1) * 0x6D2B79F5\<close> is below \<open>2^53\<close>, where the addition of the
  source is still exact.
\<close>

theorem seeded_rng_formula:
  assumes "seed mod 2 ^ 32 + (int k + 1) * 0x6d2b79f5 < 2 ^ 53"
  shows "nth_output seed k = formula_output seed k \<and>
         0 \<le> nth_output seed k \<and> nth_output seed k < 1"
  using nth_output_word [OF assms]
        spec_step4_range [of "step3_add (spec_step2 ((spec_step1 ^^ Suc k) (word_of_int seed)))"]
  by (simp add: formula_output_def)

theorem seeded_rng_formula_witness:
  "(42 :: int) mod 2 ^ 32 + (int 1 + 1) * 0x6d2b79f5 < 2 ^ 53 \<and>
   nth_output 42 1 = 1925393290 / 4294967296 \<and>
   formula_output 42 1 = 1925393290 / 4294967296 \<and>
   0 \<le> nth_output 42 1 \<and> nth_output 42 1 < 1"
proof -
  have h: "(42 :: int) mod 2 ^ 32 + (int 1 + 1) * 0x6d2b79f5 < 2 ^ 53" by simp
  from seeded_rng_formula [OF h] h formula_output_42_1 show ?thesis by simp
qed

subsection \<open>Beyond the exact range\<close>

text \<open>
  The variable \<open>t\<close> of the source is never reduced modulo \<open>2^32\<close>. For seed 0 it
  passes \<open>2^53\<close> at call number 4917758: the sum \<open>9007199260973067\<close> is odd and is
  rounded to \<open>9007199260973068\<close>, and the output is no longer the value of the formula.
\<close>

lemma late_state: "rng_calls 4917758 (createSeededRng 0) = 9007197429407254"
proof -
  have "createSeededRng 0 = 0" by (simp add: createSeededRng_eq)
  moreover have "rng_calls 4917758 0 = 0 + int 4917758 * 0x6d2b79f5"
    by (rule rng_calls_exact) simp_all
  ultimately show ?thesis by simp
qed

lemma bitlen_late: "bitlen 9007199260973067 = 54"
proof -
  have "floorlog 2 (9007199260973067 :: nat) \<le> 54"
    by (simp add: floorlog_le_iff)
  moreover have "54 \<le> floorlog 2 (9007199260973067 :: nat)"
    by (rule floorlog_geI) simp_all
  ultimately have "floorlog 2 (9007199260973067 :: nat) = 54" by (rule antisym)
  then show ?thesis by (simp add: bitlen_def)
qed

lemma late_add: "js_add 9007197429407254 0x6d2b79f5 = 9007199260973068"
  by (simp add: js_add_def double_round_def bitlen_late)

lemma late_call:
  "seeded_rng 9007197429407254 = (2430946484 / 4294967296, 9007199260973068)"
proof -
  have b: "imul (js_xor 9007199260973068 (js_ushr 9007199260973068 15))
                (js_or 1 9007199260973068) = 422768906"
    by (simp add: js_defs)
  have c: "js_xor (js_add 422768906 (imul (js_xor 422768906 (js_ushr 422768906 7))
                    (js_or 61 422768906))) 422768906 = - 1863905496"
    by (simp add: js_defs)
  have d: "js_ushr (js_xor (- 1863905496) (js_ushr (- 1863905496) 14)) 0 = 2430946484"
    by (simp add: js_defs)
  show ?thesis using seeded_rng_stages [OF late_add b c d] by simp
qed

lemma late_formula: "formula_output 0 4917758 = 3767445004 / 4294967296"
proof -
  have a: "(spec_step1 ^^ Suc 4917758) (word_of_int 0) = 6232075"
    by (simp add: spec_step1_funpow)
  have b: "spec_step2 6232075 = 429000647" by (simp add: spec_step2_def)
  have c: "step3_add 429000647 = 3767346232" by (simp add: step3_add_def)
  have d: "spec_step4 3767346232 = 3767445004 / 4294967296" by (simp add: spec_step4_def)
  show ?thesis unfolding formula_output_def a b c d by (rule refl)
qed

lemma late_output_differs:
  "nth_output 0 4917758 = 2430946484 / 4294967296 \<and>
   formula_output 0 4917758 = 3767445004 / 4294967296"
  by (simp add: nth_output_def late_state late_call late_formula)

section \<open>The random index stays in range\<close>

lemma pow_split_1074: "(2 :: int) ^ 1074 = 2 ^ 53 * 2 ^ 1021"
  by (simp only: power_add [symmetric]) simp

lemma double_below_one:
  assumes "0 \<le> k" and "k < 2 ^ 1074" and "double_round k = k"
  shows "k \<le> (2 ^ 53 - 1) * 2 ^ 1021"
proof (cases "k < 2 ^ 53")
  case True
  have "(1 :: int) \<le> 2 ^ 1021" by simp
  then have "(2 ^ 53 - 1) * (1 :: int) \<le> (2 ^ 53 - 1) * 2 ^ 1021"
    by (intro mult_left_mono) simp_all
  with True show ?thesis by simp
next
  case False
  then have big: "(2 :: int) ^ 53 \<le> \<bar>k\<bar>" using assms(1) by simp
  define n where "n = nat (bitlen k)"
  define e where "e = n - 53"
  define M where "M = (if k mod 2 ^ e > 2 ^ (n - 54) \<or>
                       (k mod 2 ^ e = 2 ^ (n - 54) \<and> odd (k div 2 ^ e))
                    then k div 2 ^ e + 1 else k div 2 ^ e)"
  have abs: "\<bar>k\<bar> = k" using assms(1) by simp
  have n: "54 \<le> n" "2 ^ (n - 1) \<le> k" "k < 2 ^ n"
    using bitlen_large [of k] False by (simp_all add: n_def)
  have sg: "sgn k = 1" using big assms(1) by (smt (verit) sgn_1_pos zero_less_power)
  have "double_round k = sgn k * M * 2 ^ e"
    using double_round_large [OF big] unfolding abs M_def e_def n_def .
  then have k: "k = M * 2 ^ e" using assms(3) sg by simp
  have lt: "(2 :: int) ^ (n - 1) < 2 ^ 1074" using n(2) assms(2) by linarith
  have "n - 1 < 1074" by (rule power_less_imp_less_exp [OF _ lt]) simp
  then have e: "e \<le> 1021" by (simp add: e_def)
  have "n = 53 + e" using n(1) by (simp add: e_def)
  then have "(2 :: int) ^ n = 2 ^ 53 * 2 ^ e" by (simp only: power_add)
  with n(3) k have "M * 2 ^ e < 2 ^ 53 * 2 ^ e" by simp
  then have "M < 2 ^ 53" by (simp only: mult_less_cancel_right) simp
  then have M: "M \<le> 2 ^ 53 - 1" by simp
  have M0: "0 \<le> M"
  proof (rule ccontr)
    assume "\<not> 0 \<le> M"
    then have "M * 2 ^ e < 0" by (simp add: mult_less_0_iff)
    with k assms(1) show False by simp
  qed
  have "M * 2 ^ e \<le> (2 ^ 53 - 1) * 2 ^ e" using M by (intro mult_right_mono) simp_all
  also have "\<dots> \<le> (2 ^ 53 - 1) * 2 ^ 1021"
    using e by (intro mult_left_mono power_increasing) simp_all
  finally show ?thesis using k by simp
qed

lemma rand_in_range:
  assumes "0 \<le> x" and "x < 1" and "is_double x" and "0 < n"
  shows "0 \<le> rand n x \<and> rand n x < int n"
proof -
  define k where "k = \<lfloor>x * 2 ^ 1074\<rfloor>"
  have xk: "x * 2 ^ 1074 = real_of_int k" and dk: "double_round k = k"
    using assms(3) by (simp_all add: is_double_def k_def)
  have k0: "0 \<le> k" unfolding k_def using assms(1) by simp
  have "x * 2 ^ 1074 < 1 * 2 ^ 1074" using assms(2) by (intro mult_strict_right_mono) simp_all
  then have "real_of_int k < real_of_int (2 ^ 1074)" using xk by simp
  then have k1: "k < 2 ^ 1074" by (simp only: of_int_less_iff)
  have kb: "k \<le> (2 ^ 53 - 1) * 2 ^ 1021" using k0 k1 dk by (rule double_below_one)
  define K where "K = k * int n"
  define D where "D = double_round K"
  have K0: "0 \<le> K" using k0 by (simp add: K_def)
  have D: "0 \<le> D" "2 ^ 53 * D \<le> (2 ^ 53 + 1) * K"
    using double_round_nonneg_bound [OF K0] by (simp_all add: D_def)
  have "K \<le> (2 ^ 53 - 1) * 2 ^ 1021 * int n"
    unfolding K_def using kb by (intro mult_right_mono) simp_all
  then have "(2 ^ 53 + 1) * K \<le> (2 ^ 53 + 1) * ((2 ^ 53 - 1) * 2 ^ 1021 * int n)"
    by (intro mult_left_mono) simp_all
  also have "\<dots> = (2 ^ 53 * 2 ^ 53 - 1) * (2 ^ 1021 * int n)"
    by (simp add: algebra_simps)
  also have "\<dots> < (2 ^ 53 * 2 ^ 53) * (2 ^ 1021 * int n)"
    using assms(4) by (intro mult_strict_right_mono) simp_all
  also have "\<dots> = 2 ^ 53 * (2 ^ 1074 * int n)"
    by (simp only: pow_split_1074 mult.assoc)
  finally have "2 ^ 53 * D < 2 ^ 53 * (2 ^ 1074 * int n)" using D(2) by linarith
  moreover have "(0 :: int) < 2 ^ 53" by simp
  ultimately have Dn: "D < 2 ^ 1074 * int n" by (simp only: mult_less_cancel_left_pos)
  have dt: "double_times x n = real_of_int D / 2 ^ 1074"
    by (simp add: double_times_def D_def K_def k_def)
  have "0 \<le> real_of_int D / 2 ^ 1074" using D(1) by simp
  then have lo: "0 \<le> rand n x" by (simp add: rand_def dt)
  have "real_of_int D < real_of_int (2 ^ 1074 * int n)" using Dn by (simp only: of_int_less_iff)
  then have "real_of_int D < real n * 2 ^ 1074" by (simp add: mult.commute)
  then have "real_of_int D / 2 ^ 1074 < real n" by (simp add: divide_less_eq)
  then have "rand n x < int n" by (simp add: rand_def dt floor_less_iff)
  with lo show ?thesis ..
qed

section \<open>Well-formed boards stay well-formed\<close>

lemma tile_ok_iff: "tile_ok (Fin v) \<longleftrightarrow> v = 0 \<or> (\<exists>k. 0 < k \<and> v = 2 ^ k)"
proof -
  have "k \<le> nat ((2 :: int) ^ k)" for k :: nat
  proof -
    have "k < (2 :: nat) ^ k" by (rule less_exp)
    moreover have "nat ((2 :: int) ^ k) = (2 :: nat) ^ k" by (simp add: nat_power_eq)
    ultimately show ?thesis by linarith
  qed
  then show ?thesis by (auto simp: Suc_le_eq)
qed

lemma tile_ok_0: "tile_ok (Fin 0)"
  by (simp only: tile_ok_iff) simp

lemma tile_ok_2: "tile_ok (Fin 2)"
  unfolding tile_ok_iff by (rule disjI2, rule exI [of _ 1]) simp

lemma tile_ok_4: "tile_ok (Fin 4)"
  unfolding tile_ok_iff by (rule disjI2, rule exI [of _ 2]) simp

lemma tile_ok_twice:
  assumes "tile_ok x" and "x \<noteq> Fin 0" and "\<not> js_ge x (2 ^ 1023)"
  shows "tile_ok (twice x)"
proof -
  from assms(1) obtain v where x: "x = Fin v" by (cases x) simp_all
  with assms obtain k where k: "0 < k" "v = 2 ^ k" by (auto simp only: tile_ok_iff)
  from assms(3) x have small: "v < 2 ^ 1023" by simp
  have "doubles_exactly x"
    using x k(2) small by (simp add: double_round_pow2)
  then have "twice x = Fin (2 * val x)" by (rule twice_exact)
  also have "2 * val x = 2 ^ Suc k" using x k(2) by simp
  finally have "twice x = Fin (2 ^ Suc k)" .
  moreover have "tile_ok (Fin (2 ^ Suc k))"
    unfolding tile_ok_iff by (rule disjI2, rule exI [of _ "Suc k"]) simp
  ultimately show ?thesis by simp
qed

lemma tile_ok_blocks:
  "list_all (\<lambda>x. tile_ok x \<and> x \<noteq> Fin 0 \<and> \<not> js_ge x (2 ^ 1023)) xs \<Longrightarrow>
     list_all tile_ok (map block_cell (blocks_of xs))"
  by (induction xs rule: blocks_of.induct) (simp_all add: tile_ok_twice)

lemma tile_ok_line_result:
  assumes "list_all tile_ok l" and "list_all (\<lambda>v. \<not> js_ge v (2 ^ 1023)) l"
  shows "list_all tile_ok (line_result l)"
proof -
  have "list_all (\<lambda>x. tile_ok x \<and> x \<noteq> Fin 0 \<and> \<not> js_ge x (2 ^ 1023))
          (filter (\<lambda>v. v \<noteq> Fin 0) l)"
    using assms unfolding list_all_iff by auto
  then have "list_all tile_ok (map block_cell (blocks_of (filter (\<lambda>v. v \<noteq> Fin 0) l)))"
    by (rule tile_ok_blocks)
  moreover have "list_all tile_ok (replicate n (Fin 0))" for n
    by (induction n) (simp_all add: tile_ok_0 del: tile_ok.simps)
  ultimately show ?thesis
    unfolding line_result_def by (simp only: list_all_append simp_thms)
qed

lemma tiles_map_line_result:
  "list_all (list_all tile_ok) b \<Longrightarrow> list_all (list_all (\<lambda>v. \<not> js_ge v (2 ^ 1023))) b \<Longrightarrow>
     list_all (list_all tile_ok) (map line_result b)"
  by (induction b) (simp_all add: tile_ok_line_result)

lemma length_unlines: "length (unlines d b) = length b"
  by (cases d) (simp_all add: unlines_def length_reverseRows length_tr)

lemma wf_move:
  assumes "wf_board b" and "cells_below_overflow b"
  shows "\<exists>res. move b d = Some res \<and> wf_board (board res) \<and> length (board res) = length b"
proof -
  from assms have sq: "square b" and t: "list_all (list_all tile_ok) b"
    and s: "list_all (list_all (\<lambda>v. \<not> js_ge v (2 ^ 1023))) b"
    by (simp_all add: wf_board_def cells_below_overflow_def)
  let ?L = "lines_of d b"
  let ?R = "map line_result ?L"
  have "list_all (list_all tile_ok) ?L" using sq t by (rule cells_lines_of)
  moreover have "list_all (list_all (\<lambda>v. \<not> js_ge v (2 ^ 1023))) ?L"
    using sq s by (rule cells_lines_of)
  ultimately have tR: "list_all (list_all tile_ok) ?R" by (rule tiles_map_line_result)
  have sqR: "square ?R" using sq by (simp add: square_map_line_result square_lines_of)
  have "list_all (list_all tile_ok) (unlines d ?R)" using sqR tR by (rule cells_unlines)
  moreover have "square (unlines d ?R)"
    using sqR by (cases d) (simp_all add: unlines_def square_reverseRows square_tr)
  ultimately have "wf_board (unlines d ?R)" by (simp add: wf_board_def)
  then show ?thesis
    using move_square [OF sq, of d] by (simp add: length_unlines length_lines_of)
qed

lemma getEmptyCells_in_range:
  "(r, c) \<in> set (getEmptyCells b) \<Longrightarrow> r < length b \<and> c < length (b ! r)"
  by (auto simp: getEmptyCells_def)

lemma wf_update:
  assumes "wf_board b" and "r < length b" and "c < length (b ! r)" and "tile_ok v"
  shows "wf_board (b[r := (b ! r)[c := v]])"
proof -
  let ?b' = "b[r := (b ! r)[c := v]]"
  have rows: "row \<in> set ?b' \<Longrightarrow> row \<in> set b \<or> row = (b ! r)[c := v]" for row
    using set_update_subset_insert [of b r "(b ! r)[c := v]"] by auto
  have br: "b ! r \<in> set b" using assms(2) by simp
  have sq: "\<forall>row \<in> set b. length row = length b"
    using assms(1) by (simp add: wf_board_def square_iff)
  have tl: "\<forall>row \<in> set b. \<forall>x \<in> set row. tile_ok x"
    using assms(1) by (simp add: wf_board_def list_all_iff)
  have "length row = length ?b'" if "row \<in> set ?b'" for row
    using rows [OF that] sq br by auto
  moreover have "tile_ok x" if "row \<in> set ?b'" "x \<in> set row" for row x
  proof -
    from rows [OF that(1)] show ?thesis
    proof
      assume "row \<in> set b" with tl that(2) show ?thesis by blast
    next
      assume "row = (b ! r)[c := v]"
      with that(2) have "x \<in> insert v (set (b ! r))"
        using set_update_subset_insert [of "b ! r" c v] by auto
      with tl br assms(4) show ?thesis by auto
    qed
  qed
  ultimately show ?thesis
    unfolding wf_board_def square_iff list_all_iff by blast
qed

lemma spawn_wf:
  assumes "wf_board b" and "rng_in_range rng"
  shows "\<exists>b' s'. spawnRandomTile b rng s = Inr (b', s') \<and> wf_board b' \<and> length b' = length b"
proof (cases "getEmptyCells b = []")
  case True
  then show ?thesis using assms(1) by (simp add: spawnRandomTile_def)
next
  case False
  let ?empty = "getEmptyCells b"
  obtain x s1 where x: "rng s = (x, s1)" by (cases "rng s")
  obtain y s2 where y: "rng s1 = (y, s2)" by (cases "rng s1")
  have "0 \<le> x \<and> x < 1 \<and> is_double x"
    using assms(2) x unfolding rng_in_range_def by (metis fst_conv)
  then have i: "0 \<le> rand (length ?empty) x \<and> rand (length ?empty) x < int (length ?empty)"
    using False by (intro rand_in_range) simp_all
  then have "nat (rand (length ?empty) x) < length ?empty" by linarith
  then have mem: "?empty ! nat (rand (length ?empty) x) \<in> set ?empty" by simp
  obtain r c where rc: "?empty ! nat (rand (length ?empty) x) = (r, c)"
    by (cases "?empty ! nat (rand (length ?empty) x)")
  with mem have rng: "r < length b \<and> c < length (b ! r)"
    by (simp add: getEmptyCells_in_range)
  let ?v = "if y < 8106479329266893 / 2 ^ 53 then Fin 2 else Fin 4"
  have v: "tile_ok ?v" using tile_ok_2 tile_ok_4 by (simp only: split: if_split) blast
  have sp: "spawnRandomTile b rng s = Inr (b[r := (b ! r)[c := ?v]], s2)"
    using False i x y rc by (simp add: spawnRandomTile_def cloneBoard_id Let_def)
  have "wf_board (b[r := (b ! r)[c := ?v]])"
    using assms(1) rng v by (intro wf_update) simp_all
  with sp show ?thesis by simp
qed

lemma wf_createEmptyBoard: "wf_board (createEmptyBoard n) \<and> length (createEmptyBoard n) = n"
  by (simp add: wf_board_def square_iff createEmptyBoard_def list_all_iff)

lemma initializeBoard_wf:
  assumes "rng_in_range rng"
  shows "\<exists>b' s'. initializeBoard n rng s = Inr (b', s') \<and> wf_board b' \<and> length b' = n"
proof -
  from spawn_wf [OF _ assms, of "createEmptyBoard n" s] wf_createEmptyBoard [of n]
  obtain b1 s1 where 1: "spawnRandomTile (createEmptyBoard n) rng s = Inr (b1, s1)"
    "wf_board b1" "length b1 = n" by auto
  from spawn_wf [OF 1(2) assms, of s1]
  obtain b2 s2 where 2: "spawnRandomTile b1 rng s1 = Inr (b2, s2)"
    "wf_board b2" "length b2 = length b1" by auto
  from 1 2 show ?thesis by (simp add: initializeBoard_def)
qed

section \<open>Spawning, and the invariant with its bounds\<close>

lemma double_round_pow2_mult: "double_round (2 ^ k * a) = 2 ^ k * double_round a"
proof (induction k)
  case 0
  show ?case by simp
next
  case (Suc k)
  have "double_round (2 ^ Suc k * a) = double_round (2 * (2 ^ k * a))"
    by (simp only: power_Suc mult.assoc)
  also have "\<dots> = 2 * double_round (2 ^ k * a)" by (rule double_round_twice)
  also have "\<dots> = 2 ^ Suc k * double_round a" by (simp only: Suc power_Suc mult.assoc)
  finally show ?case .
qed

lemma double_round_of_nat: "int n < 2 ^ 53 \<Longrightarrow> double_round (int n) = int n"
  by (rule double_round_small) simp

lemma floor_half: "\<lfloor>(1 / 2 :: real) * 2 ^ 1074\<rfloor> = 2 ^ 1073"
proof -
  have "(1 / 2 :: real) * 2 ^ 1074 = of_int (2 ^ 1073)" by simp
  then show ?thesis by (simp only: floor_of_int)
qed

lemma floor_one: "\<lfloor>(1 :: real) * 2 ^ 1074\<rfloor> = 2 ^ 1074"
proof -
  have "(1 :: real) * 2 ^ 1074 = of_int (2 ^ 1074)" by simp
  then show ?thesis by (simp only: floor_of_int)
qed

lemma is_double_half: "is_double (1 / 2)"
proof -
  have "(1 / 2 :: real) * 2 ^ 1074 = real_of_int (2 ^ 1073)" by simp
  moreover have "double_round (2 ^ 1073) = 2 ^ 1073" by (rule double_round_pow2)
  ultimately show ?thesis unfolding is_double_def floor_half by (rule conjI)
qed

lemma double_times_half:
  assumes "int n < 2 ^ 53"
  shows "double_times (1 / 2) n = real n / 2"
proof -
  have "double_times (1 / 2) n = real_of_int (double_round (2 ^ 1073 * int n)) / 2 ^ 1074"
    unfolding double_times_def floor_half ..
  also have "double_round (2 ^ 1073 * int n) = 2 ^ 1073 * int n"
    using assms by (simp only: double_round_pow2_mult double_round_of_nat)
  also have "real_of_int (2 ^ 1073 * int n) / 2 ^ 1074 = real n / 2" by simp
  finally show ?thesis .
qed

lemma double_times_one:
  assumes "int n < 2 ^ 53"
  shows "double_times 1 n = real n"
proof -
  have "double_times 1 n = real_of_int (double_round (2 ^ 1074 * int n)) / 2 ^ 1074"
    unfolding double_times_def floor_one ..
  also have "double_round (2 ^ 1074 * int n) = 2 ^ 1074 * int n"
    using assms by (simp only: double_round_pow2_mult double_round_of_nat)
  also have "real_of_int (2 ^ 1074 * int n) / 2 ^ 1074 = real n" by simp
  finally show ?thesis .
qed

lemma rand_half: "int n < 2 ^ 53 \<Longrightarrow> rand n (1 / 2) = int (n div 2)"
proof -
  assume "int n < 2 ^ 53"
  then have "rand n (1 / 2) = \<lfloor>real n / 2\<rfloor>" by (simp only: rand_def double_times_half)
  also have "\<dots> = int (n div 2)" using floor_divide_of_nat_eq [of n 2, where 'a = real] by simp
  finally show ?thesis .
qed

lemma rand_one: "int n < 2 ^ 53 \<Longrightarrow> rand n 1 = int n"
  by (simp only: rand_def double_times_one floor_of_nat)

lemma rng_half_in_range: "rng_in_range (\<lambda>s :: nat. (1 / 2, Suc s))"
  unfolding rng_in_range_def using is_double_half by simp

lemma spawn_rng_out_of_range:
  "spawnRandomTile [[Fin 0]] (\<lambda>s :: nat. (1, Suc s)) 0 = Inl TypeError"
proof -
  have "getEmptyCells [[Fin 0]] = [(0, 0)]" by (simp add: getEmptyCells_def)
  then show ?thesis by (simp add: spawnRandomTile_def rand_one)
qed

lemma spawn_half_example:
  "spawnRandomTile [[Fin 2, Fin 0], [Fin 2, Fin 4]] (\<lambda>s :: nat. (1 / 2, Suc s)) 0
     = Inr ([[Fin 2, Fin 2], [Fin 2, Fin 4]], 2)"
proof -
  have "getEmptyCells [[Fin 2, Fin 0], [Fin 2, Fin 4]] = [(0, 1)]"
    by (simp add: getEmptyCells_def)
  then show ?thesis by (simp add: spawnRandomTile_def cloneBoard_def rand_half Let_def)
qed

lemma createEmptyBoard_2: "createEmptyBoard 2 = [[Fin 0, Fin 0], [Fin 0, Fin 0]]"
  by code_simp

lemma spawn_half_empty2:
  "spawnRandomTile [[Fin 0, Fin 0], [Fin 0, Fin 0]] (\<lambda>s :: nat. (1 / 2, Suc s)) 0
     = Inr ([[Fin 0, Fin 0], [Fin 2, Fin 0]], 2)"
proof -
  have "getEmptyCells [[Fin 0, Fin 0], [Fin 0, Fin 0]] = [(0, 0), (0, 1), (1, 0), (1, 1)]"
    by (simp add: getEmptyCells_def)
  then show ?thesis by (simp add: spawnRandomTile_def cloneBoard_def rand_half Let_def)
qed

lemma spawn_half_second:
  "spawnRandomTile [[Fin 0, Fin 0], [Fin 2, Fin 0]] (\<lambda>s :: nat. (1 / 2, Suc s)) 2
     = Inr ([[Fin 0, Fin 2], [Fin 2, Fin 0]], 4)"
proof -
  have "getEmptyCells [[Fin 0, Fin 0], [Fin 2, Fin 0]] = [(0, 0), (0, 1), (1, 1)]"
    by (simp add: getEmptyCells_def)
  then show ?thesis by (simp add: spawnRandomTile_def cloneBoard_def rand_half Let_def)
qed

lemma initializeBoard_half_2:
  "initializeBoard 2 (\<lambda>s :: nat. (1 / 2, Suc s)) 0 = Inr ([[Fin 0, Fin 2], [Fin 2, Fin 0]], 4)"
  by (simp add: initializeBoard_def createEmptyBoard_2 spawn_half_empty2 spawn_half_second)

lemma wf_overflow_board: "wf_board [[Fin (2 ^ 1023), Fin (2 ^ 1023)], [Fin 0, Fin 0]]"
proof -
  have "tile_ok (Fin (2 ^ 1023))"
    unfolding tile_ok_iff by (rule disjI2, rule exI [of _ 1023]) simp
  moreover have "square [[Fin (2 ^ 1023), Fin (2 ^ 1023)], [Fin 0, Fin 0]]"
    by (simp add: square_def)
  ultimately show ?thesis
    by (simp add: wf_board_def tile_ok_0 del: tile_ok.simps)
qed

text \<open>
  C9, as stated: every engine operation keeps a board well-formed, for any random source.
  Two tiles \<open>2^1023\<close> merge into \<open>Infinity\<close>, which is not a power of two; and a random
  source that returns 1 makes \<open>spawnRandomTile\<close> read past the list of empty cells and
  throw.
\<close>

theorem engine_wf_counterexample:
  "wf_board [[Fin (2 ^ 1023), Fin (2 ^ 1023)], [Fin 0, Fin 0]] \<and>
   move [[Fin (2 ^ 1023), Fin (2 ^ 1023)], [Fin 0, Fin 0]] Left
     = Some \<lparr>board = [[PInf, Fin 0], [Fin 0, Fin 0]], gained = Num PInf, moved = True\<rparr> \<and>
   \<not> wf_board [[PInf, Fin 0], [Fin 0, Fin 0]] \<and>
   wf_board [[Fin 0]] \<and>
   spawnRandomTile [[Fin 0]] (\<lambda>s :: nat. (1, Suc s)) 0 = Inl TypeError"
proof -
  have "move [[Fin (2 ^ 1023), Fin (2 ^ 1023)], [Fin 0, Fin 0]] Left
     = Some \<lparr>board = [[PInf, Fin 0], [Fin 0, Fin 0]], gained = Num PInf, moved = True\<rparr>"
    by code_simp
  moreover have "\<not> wf_board [[PInf, Fin 0], [Fin 0, Fin 0]]"
    by (simp add: wf_board_def)
  moreover have "wf_board [[Fin 0]]"
    by (simp add: wf_board_def square_def)
  ultimately show ?thesis
    using wf_overflow_board spawn_rng_out_of_range by (simp only: simp_thms)
qed

text \<open>
  C9, amended: on a well-formed board (square, every nonzero cell a power of two that is
  at least 2) whose tiles are below \<open>2^1023\<close>, \<open>move\<close> in any direction returns a
  well-formed board of the same size; on a well-formed board \<open>spawnRandomTile\<close> with a
  random source that returns doubles in \<open>[0, 1)\<close> returns a well-formed board of the same
  size, and with such a source \<open>initializeBoard\<close> returns a well-formed board of the
  requested size.
\<close>

theorem engine_preserves_wf:
  "(wf_board b \<and> cells_below_overflow b \<longrightarrow>
      (\<exists>res. move b d = Some res \<and> wf_board (board res) \<and> length (board res) = length b))
   \<and> (wf_board b \<and> rng_in_range rng \<longrightarrow>
      (\<exists>b' s'. spawnRandomTile b rng s = Inr (b', s') \<and> wf_board b' \<and> length b' = length b))
   \<and> (rng_in_range rng \<longrightarrow>
      (\<exists>b' s'. initializeBoard n rng s = Inr (b', s') \<and> wf_board b' \<and> length b' = n))"
  using wf_move [of b d] spawn_wf [of b rng s] initializeBoard_wf [of rng n s]
  by blast

theorem engine_preserves_wf_witness:
  "(\<exists>res. move [[Fin 2, Fin 0], [Fin 2, Fin 4]] Up = Some res \<and>
          board res = [[Fin 4, Fin 4], [Fin 0, Fin 0]] \<and>
          wf_board (board res) \<and> length (board res) = 2)
   \<and> (\<exists>b' s'. spawnRandomTile [[Fin 2, Fin 0], [Fin 2, Fin 4]] (\<lambda>s :: nat. (1 / 2, Suc s)) 0
                 = Inr (b', s') \<and>
          b' = [[Fin 2, Fin 2], [Fin 2, Fin 4]] \<and> wf_board b' \<and> length b' = 2)
   \<and> (\<exists>b' s'. initializeBoard 2 (\<lambda>s :: nat. (1 / 2, Suc s)) 0 = Inr (b', s') \<and>
          b' = [[Fin 0, Fin 2], [Fin 2, Fin 0]] \<and> wf_board b' \<and> length b' = 2)"
proof -
  have w: "wf_board [[Fin 2, Fin 0], [Fin 2, Fin 4]]" by code_simp
  have s: "cells_below_overflow [[Fin 2, Fin 0], [Fin 2, Fin 4]]" by code_simp
  have m: "move [[Fin 2, Fin 0], [Fin 2, Fin 4]] Up
             = Some \<lparr>board = [[Fin 4, Fin 4], [Fin 0, Fin 0]], gained = Num (Fin 4),
                     moved = True\<rparr>"
    by code_simp
  show ?thesis
    using engine_preserves_wf [of "[[Fin 2, Fin 0], [Fin 2, Fin 4]]" Up
                                  "\<lambda>s :: nat. (1 / 2, Suc s)" 0 2]
      w s rng_half_in_range
    by (simp add: m spawn_half_example initializeBoard_half_2 del: tile_ok.simps)
qed

section \<open>Loss detection\<close>

lemma blocks_of_distinct_adj:
  "distinct_adj xs \<Longrightarrow> blocks_of xs = map (\<lambda>x. [x]) xs"
  by (induction xs rule: blocks_of.induct) simp_all

lemma blocks_of_shorter:
  "\<not> distinct_adj xs \<Longrightarrow> length (blocks_of xs) < length xs"
proof (induction xs rule: blocks_of.induct)
  case (3 x y rest)
  have "length (blocks_of rest) \<le> length rest" by (rule length_blocks_of)
  with 3 show ?case by (auto split: if_splits)
qed simp_all

lemma filter_nonzero_id: "Fin 0 \<notin> set l \<Longrightarrow> filter (\<lambda>v. v \<noteq> Fin 0) l = l"
  by (induction l) auto

lemma calm_line_unmoved:
  assumes "Fin 0 \<notin> set l" and "distinct_adj l"
  shows "\<not> line_moved l"
proof -
  have "line_result l = l"
    using assms by (simp add: line_result_def filter_nonzero_id blocks_of_distinct_adj comp_def)
  then show ?thesis by (simp add: line_moved_def)
qed

lemma equal_pair_moves:
  assumes "Fin 0 \<notin> set l" and "\<not> distinct_adj l"
  shows "line_moved l"
proof -
  have "length (blocks_of l) < length l" using assms(2) by (rule blocks_of_shorter)
  then have "0 < length l - length (blocks_of l)" by simp
  then have "Fin 0 \<in> set (replicate (length l - length (blocks_of l)) (Fin 0))" by simp
  then have "Fin 0 \<in> set (line_result l)"
    using assms(1) by (simp add: line_result_def filter_nonzero_id)
  with assms(1) have "line_result l \<noteq> l" by auto
  then show ?thesis by (simp add: line_moved_def)
qed

lemma zero_before_tile_moves:
  assumes "i < j" and "j < length l" and "l ! i = Fin 0" and "l ! j \<noteq> Fin 0"
  shows "line_moved l"
proof (rule ccontr)
  assume "\<not> line_moved l"
  then have eq: "line_result l = l" by (simp add: line_moved_def)
  let ?m = "map block_cell (blocks_of (filter (\<lambda>v. v \<noteq> Fin 0) l))"
  let ?k = "length l - length (blocks_of (filter (\<lambda>v. v \<noteq> Fin 0) l))"
  have l: "l = ?m @ replicate ?k (Fin 0)"
    using eq line_result_def [of l] by simp
  have nz: "Fin 0 \<notin> set ?m" by (rule blocks_of_nonzero) simp
  have "\<not> i < length ?m"
  proof
    assume a: "i < length ?m"
    then have "l ! i = ?m ! i" by (subst l) (simp only: nth_append if_True)
    moreover have "?m ! i \<in> set ?m" using a by (rule nth_mem)
    ultimately show False using nz assms(3) by metis
  qed
  then have "\<not> j < length ?m" using assms(1) by simp
  then have "l ! j = replicate ?k (Fin 0) ! (j - length ?m)"
    by (subst l) (simp only: nth_append if_False)
  moreover have "j - length ?m < ?k"
    using assms(2) \<open>\<not> j < length ?m\<close> length_blocks_filter [of l] by simp
  ultimately have "l ! j = Fin 0" by simp
  with assms(4) show False by simp
qed

lemma zero_and_tile_moves:
  assumes "i < length l" and "j < length l" and "l ! i = Fin 0" and "l ! j \<noteq> Fin 0"
  shows "line_moved l \<or> line_moved (rev l)"
proof (cases "i < j")
  case True
  then show ?thesis using assms zero_before_tile_moves by blast
next
  case False
  with assms have ji: "j < i" by (metis linorder_neqE_nat)
  let ?n = "length l"
  have "rev l ! (?n - 1 - i) = l ! i" using assms(1) by (simp add: rev_nth)
  moreover have "rev l ! (?n - 1 - j) = l ! j" using assms(2) by (simp add: rev_nth)
  moreover have "?n - 1 - i < ?n - 1 - j" using ji assms(1) by simp
  moreover have "?n - 1 - j < length (rev l)" using assms(2) by simp
  ultimately have "line_moved (rev l)"
    using assms(3,4) zero_before_tile_moves [of "?n - 1 - i" "?n - 1 - j" "rev l"] by simp
  then show ?thesis ..
qed

lemma cell_square:
  "square b \<Longrightarrow> r < length b \<Longrightarrow> c < length b \<Longrightarrow> cell b r c = Some (b ! r ! c)"
  by (simp add: cell_def square_nth)

lemma has_zero_iff:
  assumes "square b"
  shows "list_ex (\<lambda>row. list_ex (\<lambda>v. v = Fin 0) row) b
           \<longleftrightarrow> (\<exists>r<length b. \<exists>c<length b. b ! r ! c = Fin 0)"
proof
  assume "list_ex (\<lambda>row. list_ex (\<lambda>v. v = Fin 0) row) b"
  then obtain row where row: "row \<in> set b" "Fin 0 \<in> set row" by (auto simp: list_ex_iff)
  then obtain r where r: "r < length b" "b ! r = row" by (metis in_set_conv_nth)
  from row obtain c where c: "c < length row" "row ! c = Fin 0" by (metis in_set_conv_nth)
  from r c assms have "c < length b" by (metis square_nth)
  with r c show "\<exists>r<length b. \<exists>c<length b. b ! r ! c = Fin 0" by blast
next
  assume "\<exists>r<length b. \<exists>c<length b. b ! r ! c = Fin 0"
  then obtain r c where rc: "r < length b" "c < length b" "b ! r ! c = Fin 0" by blast
  then have "c < length (b ! r)" using assms by (simp add: square_nth)
  then have "Fin 0 \<in> set (b ! r)" using rc(3) by (metis nth_mem)
  moreover have "b ! r \<in> set b" using rc(1) by simp
  ultimately show "list_ex (\<lambda>row. list_ex (\<lambda>v. v = Fin 0) row) b"
    by (auto simp: list_ex_iff)
qed

lemma hasMoves_square:
  assumes "square b"
  shows "hasMoves b \<longleftrightarrow>
           (\<exists>r<length b. \<exists>c<length b. b ! r ! c = Fin 0) \<or>
           (\<exists>r<length b. \<exists>c<length b.
              (c + 1 < length b \<and> b ! r ! (c + 1) = b ! r ! c) \<or>
              (r + 1 < length b \<and> b ! (r + 1) ! c = b ! r ! c))"
proof -
  let ?n = "length b"
  let ?P = "\<lambda>r c. (let v = cell b r c in
              (c + 1 < ?n \<and> cell b r (c + 1) = v) \<or> (r + 1 < ?n \<and> cell b (r + 1) c = v))"
  let ?Q = "\<lambda>r c. (c + 1 < ?n \<and> b ! r ! (c + 1) = b ! r ! c) \<or>
                  (r + 1 < ?n \<and> b ! (r + 1) ! c = b ! r ! c)"
  have pt: "?P r c \<longleftrightarrow> ?Q r c" if "r \<in> {0..<?n}" "c \<in> {0..<?n}" for r c
    using that assms by (auto simp: Let_def cell_square)
  have "list_ex (\<lambda>r. list_ex (\<lambda>c. ?P r c) [0..<?n]) [0..<?n]
          \<longleftrightarrow> (\<exists>r \<in> {0..<?n}. \<exists>c \<in> {0..<?n}. ?P r c)"
    by (simp only: list_ex_iff set_upt)
  also have "\<dots> \<longleftrightarrow> (\<exists>r \<in> {0..<?n}. \<exists>c \<in> {0..<?n}. ?Q r c)"
    by (intro bex_cong refl pt)
  also have "\<dots> \<longleftrightarrow> (\<exists>r<?n. \<exists>c<?n. ?Q r c)"
    by (simp only: Bex_def atLeastLessThan_iff le0 simp_thms)
  finally show ?thesis
    unfolding hasMoves_def has_zero_iff [OF assms] by (simp only: Let_def if_bool_eq_disj) blast
qed

lemma moved_square:
  "square b \<Longrightarrow> \<exists>res. move b d = Some res \<and> moved res = list_ex line_moved (lines_of d b)"
  by (simp add: move_square)

lemma row_moves_Left: "r < length b \<Longrightarrow> line_moved (b ! r) \<Longrightarrow> list_ex line_moved (lines_of Left b)"
  by (auto simp: lines_of_def list_ex_iff)

lemma row_moves_Right:
  "r < length b \<Longrightarrow> line_moved (rev (b ! r)) \<Longrightarrow> list_ex line_moved (lines_of Right b)"
  by (auto simp: lines_of_def reverseRows_def list_ex_iff)

lemma col_moves_Up:
  "c < length b \<Longrightarrow> line_moved (tr b ! c) \<Longrightarrow> list_ex line_moved (lines_of Up b)"
  using row_moves_Left [of c "tr b"] by (simp add: lines_of_def length_tr)

lemma col_moves_Down:
  "c < length b \<Longrightarrow> line_moved (rev (tr b ! c)) \<Longrightarrow> list_ex line_moved (lines_of Down b)"
  using row_moves_Right [of c "tr b"] by (simp add: lines_of_def length_tr)

lemma length_tr_nth: "c < length b \<Longrightarrow> length (tr b ! c) = length b"
  by (simp add: tr_def)

lemma calm_rows_unmoved:
  assumes "\<forall>l \<in> set ls. Fin 0 \<notin> set l \<and> distinct_adj l"
  shows "\<not> list_ex line_moved ls" and "\<not> list_ex line_moved (reverseRows ls)"
proof -
  show "\<not> list_ex line_moved ls"
    using assms by (auto simp: list_ex_iff calm_line_unmoved)
  have "\<not> line_moved (rev l)" if "l \<in> set ls" for l
    using assms that by (intro calm_line_unmoved) simp_all
  then show "\<not> list_ex line_moved (reverseRows ls)"
    by (auto simp: list_ex_iff reverseRows_def)
qed

lemma calm_lineI:
  assumes "\<forall>i<length l. l ! i \<noteq> Fin 0" and "\<forall>i. Suc i < length l \<longrightarrow> l ! i \<noteq> l ! Suc i"
  shows "Fin 0 \<notin> set l \<and> distinct_adj l"
  using assms by (auto simp: in_set_conv_nth distinct_adj_conv_nth)

lemma no_moves_unmoved:
  assumes sq: "square b" and nm: "\<not> hasMoves b"
  shows "\<not> list_ex line_moved (lines_of d b)"
proof -
  let ?n = "length b"
  from nm have Z: "\<And>r c. r < ?n \<Longrightarrow> c < ?n \<Longrightarrow> b ! r ! c \<noteq> Fin 0"
    and H: "\<And>r c. r < ?n \<Longrightarrow> c + 1 < ?n \<Longrightarrow> b ! r ! (c + 1) \<noteq> b ! r ! c"
    and V: "\<And>r c. r + 1 < ?n \<Longrightarrow> c < ?n \<Longrightarrow> b ! (r + 1) ! c \<noteq> b ! r ! c"
    unfolding hasMoves_square [OF sq] by (blast, force, force)
  have rows: "\<forall>l \<in> set b. Fin 0 \<notin> set l \<and> distinct_adj l"
  proof
    fix l assume "l \<in> set b"
    then obtain r where r: "r < ?n" "b ! r = l" by (metis in_set_conv_nth)
    then have len: "length l = ?n" using sq by (metis square_nth)
    show "Fin 0 \<notin> set l \<and> distinct_adj l"
    proof (rule calm_lineI)
      show "\<forall>i<length l. l ! i \<noteq> Fin 0" using Z [of r] r len by auto
      show "\<forall>i. Suc i < length l \<longrightarrow> l ! i \<noteq> l ! Suc i"
        using H [of r] r len by (metis Suc_eq_plus1)
    qed
  qed
  have cols: "\<forall>l \<in> set (tr b). Fin 0 \<notin> set l \<and> distinct_adj l"
  proof
    fix l assume "l \<in> set (tr b)"
    then obtain c where c: "c < ?n" "tr b ! c = l"
      by (metis in_set_conv_nth length_tr)
    then have len: "length l = ?n" by (metis length_tr_nth)
    have el: "l ! r = b ! r ! c" if "r < ?n" for r
      using that c tr_nth [of r b c] by simp
    show "Fin 0 \<notin> set l \<and> distinct_adj l"
    proof (rule calm_lineI)
      show "\<forall>i<length l. l ! i \<noteq> Fin 0" using Z c(1) el len by simp
      show "\<forall>i. Suc i < length l \<longrightarrow> l ! i \<noteq> l ! Suc i"
      proof (intro allI impI)
        fix i assume i: "Suc i < length l"
        then have "l ! i = b ! i ! c" "l ! Suc i = b ! Suc i ! c"
          using el len by simp_all
        moreover have "b ! (i + 1) ! c \<noteq> b ! i ! c"
          using V [of i c] i len c(1) by simp
        ultimately show "l ! i \<noteq> l ! Suc i" by simp
      qed
    qed
  qed
  show ?thesis
    using calm_rows_unmoved [OF rows] calm_rows_unmoved [OF cols]
    by (cases d) (simp_all add: lines_of_def)
qed

lemma has_moves_moved:
  assumes sq: "square b" and hm: "hasMoves b"
    and tile: "list_ex (list_ex (\<lambda>v. v \<noteq> Fin 0)) b"
  shows "\<exists>d. list_ex line_moved (lines_of d b)"
proof -
  let ?n = "length b"
  have len: "length (b ! r) = ?n" if "r < ?n" for r
    using sq that by (rule square_nth)
  have col: "tr b ! c ! r = b ! r ! c" if "r < ?n" "c < ?n" for r c
    using that by (rule tr_nth)
  show ?thesis
  proof (cases "\<exists>r<?n. \<exists>c<?n. b ! r ! c = Fin 0")
    case True
    then obtain r c where z: "r < ?n" "c < ?n" "b ! r ! c = Fin 0" by blast
    from tile obtain row v where "row \<in> set b" "v \<in> set row" "v \<noteq> Fin 0"
      by (auto simp: list_ex_iff)
    then obtain r' c' where t: "r' < ?n" "c' < length (b ! r')" "b ! r' ! c' \<noteq> Fin 0"
      by (metis in_set_conv_nth)
    then have c': "c' < ?n" using len by simp
    show ?thesis
    proof (cases "b ! r ! c' = Fin 0")
      case False
      have "line_moved (b ! r) \<or> line_moved (rev (b ! r))"
        using z c' False len [OF z(1)]
        by (intro zero_and_tile_moves [of c _ c']) simp_all
      then show ?thesis
        using row_moves_Left [OF z(1)] row_moves_Right [OF z(1)] by blast
    next
      case True
      have "line_moved (tr b ! c') \<or> line_moved (rev (tr b ! c'))"
        using z(1) t(1) c' True t(3) col length_tr_nth [OF c']
        by (intro zero_and_tile_moves [of r _ r']) simp_all
      then show ?thesis
        using col_moves_Up [OF c'] col_moves_Down [OF c'] by blast
    qed
  next
    case False
    then have nz: "\<And>r c. r < ?n \<Longrightarrow> c < ?n \<Longrightarrow> b ! r ! c \<noteq> Fin 0" by blast
    from hm False obtain r c where rc: "r < ?n" "c < ?n"
      and pair: "(c + 1 < ?n \<and> b ! r ! (c + 1) = b ! r ! c) \<or>
                 (r + 1 < ?n \<and> b ! (r + 1) ! c = b ! r ! c)"
      unfolding hasMoves_square [OF sq] by blast
    from pair show ?thesis
    proof
      assume h: "c + 1 < ?n \<and> b ! r ! (c + 1) = b ! r ! c"
      have "Fin 0 \<notin> set (b ! r)"
        using nz [OF rc(1)] len [OF rc(1)] by (auto simp: in_set_conv_nth)
      moreover have "\<not> distinct_adj (b ! r)"
        using h len [OF rc(1)] by (auto simp: distinct_adj_conv_nth)
      ultimately have "line_moved (b ! r)" by (rule equal_pair_moves)
      then show ?thesis using row_moves_Left [OF rc(1)] by blast
    next
      assume v: "r + 1 < ?n \<and> b ! (r + 1) ! c = b ! r ! c"
      have l: "length (tr b ! c) = ?n" using rc(2) by (rule length_tr_nth)
      have "Fin 0 \<notin> set (tr b ! c)"
        using nz rc(2) col l by (auto simp: in_set_conv_nth)
      moreover have "\<not> distinct_adj (tr b ! c)"
      proof -
        have "tr b ! c ! r = tr b ! c ! Suc r"
          using v col [of r c] col [of "Suc r" c] rc by simp
        moreover have "Suc r < length (tr b ! c)" using v l by simp
        ultimately show ?thesis unfolding distinct_adj_conv_nth by blast
      qed
      ultimately have "line_moved (tr b ! c)" by (rule equal_pair_moves)
      then show ?thesis using col_moves_Up [OF rc(2)] by blast
    qed
  qed
qed

text \<open>
  C1, as stated: \<open>hasMoves\<close> is false exactly when no direction moves, so that a board
  with an empty cell always has a direction that moves. The all-zero board has empty
  cells, \<open>hasMoves\<close> is true on it, and no direction changes it.
\<close>

theorem hasMoves_zero_board_counterexample:
  "square [[Fin 0, Fin 0], [Fin 0, Fin 0]] \<and> hasMoves [[Fin 0, Fin 0], [Fin 0, Fin 0]] \<and>
   move [[Fin 0, Fin 0], [Fin 0, Fin 0]] Left = Some \<lparr>board = [[Fin 0, Fin 0], [Fin 0, Fin 0]], gained = Num (Fin 0), moved = False\<rparr> \<and>
   move [[Fin 0, Fin 0], [Fin 0, Fin 0]] Right = Some \<lparr>board = [[Fin 0, Fin 0], [Fin 0, Fin 0]], gained = Num (Fin 0), moved = False\<rparr> \<and>
   move [[Fin 0, Fin 0], [Fin 0, Fin 0]] Up = Some \<lparr>board = [[Fin 0, Fin 0], [Fin 0, Fin 0]], gained = Num (Fin 0), moved = False\<rparr> \<and>
   move [[Fin 0, Fin 0], [Fin 0, Fin 0]] Down = Some \<lparr>board = [[Fin 0, Fin 0], [Fin 0, Fin 0]], gained = Num (Fin 0), moved = False\<rparr>"
  by code_simp

text \<open>
  C1, amended: on a square board, if \<open>hasMoves\<close> is false then no direction moves; and
  on a square board with at least one nonzero cell, \<open>hasMoves\<close> is true exactly when
  some direction moves.
\<close>

theorem hasMoves_iff_some_move:
  assumes "square b"
  shows "(\<not> hasMoves b \<longrightarrow> (\<forall>d. \<exists>res. move b d = Some res \<and> \<not> moved res)) \<and>
         (list_ex (list_ex (\<lambda>v. v \<noteq> Fin 0)) b \<longrightarrow>
            (hasMoves b \<longleftrightarrow> (\<exists>d res. move b d = Some res \<and> moved res)))"
proof (intro conjI impI)
  assume nm: "\<not> hasMoves b"
  show "\<forall>d. \<exists>res. move b d = Some res \<and> \<not> moved res"
  proof
    fix d
    show "\<exists>res. move b d = Some res \<and> \<not> moved res"
      using moved_square [OF assms, of d] no_moves_unmoved [OF assms nm, of d] by auto
  qed
next
  assume tile: "list_ex (list_ex (\<lambda>v. v \<noteq> Fin 0)) b"
  show "hasMoves b \<longleftrightarrow> (\<exists>d res. move b d = Some res \<and> moved res)"
  proof
    assume "hasMoves b"
    then obtain d where "list_ex line_moved (lines_of d b)"
      using has_moves_moved [OF assms _ tile] by blast
    then show "\<exists>d res. move b d = Some res \<and> moved res"
      using moved_square [OF assms, of d] by auto
  next
    assume "\<exists>d res. move b d = Some res \<and> moved res"
    then obtain d res where m: "move b d = Some res" "moved res" by blast
    show "hasMoves b"
    proof (rule ccontr)
      assume "\<not> hasMoves b"
      then have "\<not> list_ex line_moved (lines_of d b)"
        by (rule no_moves_unmoved [OF assms])
      with m moved_square [OF assms, of d] show False by auto
    qed
  qed
qed

theorem hasMoves_iff_some_move_witness:
  "\<not> hasMoves [[Fin 2, Fin 4], [Fin 4, Fin 2]] \<and>
   (\<exists>res. move [[Fin 2, Fin 4], [Fin 4, Fin 2]] Down = Some res \<and> \<not> moved res) \<and>
   hasMoves [[Fin 2, Fin 0], [Fin 4, Fin 8]] \<and>
   (\<exists>d res. move [[Fin 2, Fin 0], [Fin 4, Fin 8]] d = Some res \<and> moved res)"
proof -
  have sq1: "square [[Fin 2, Fin 4], [Fin 4, Fin 2]]" by code_simp
  have nm: "\<not> hasMoves [[Fin 2, Fin 4], [Fin 4, Fin 2]]" by code_simp
  have sq2: "square [[Fin 2, Fin 0], [Fin 4, Fin 8]]" by code_simp
  have hm: "hasMoves [[Fin 2, Fin 0], [Fin 4, Fin 8]]" by code_simp
  have tile: "list_ex (list_ex (\<lambda>v. v \<noteq> Fin 0)) [[Fin 2, Fin 0], [Fin 4, Fin 8]]" by simp
  from hasMoves_iff_some_move [OF sq1] nm
  have "\<exists>res. move [[Fin 2, Fin 4], [Fin 4, Fin 2]] Down = Some res \<and> \<not> moved res" by blast
  moreover from hasMoves_iff_some_move [OF sq2] hm tile
  have "\<exists>d res. move [[Fin 2, Fin 0], [Fin 4, Fin 8]] d = Some res \<and> moved res" by blast
  ultimately show ?thesis using nm hm by blast
qed

end
